theory Spec2Isabelle
  imports Complex_Main "HOL-Library.Word"
begin

section \<open>JavaScript numbers\<close>

text \<open>
  The fields of an event are JavaScript numbers.  A number is modelled as a finite
  real value or one of the three non-finite values.  Finite arithmetic is exact:
  this agrees with IEEE doubles on integers of magnitude below \<open>2 ^ 53\<close>, which covers
  every value the codec reads or writes and every sanitised delay; only a running
  \<open>time\<close> sum above \<open>2 ^ 53\<close> ms would round in the source.  The two zeros of
  IEEE arithmetic are one value here (they are \<open>===\<close> in the source).
\<close>

type_synonym u8 = "8 word"

datatype jsnum = Fin real | NaN | PosInf | NegInf

datatype js_error = Error string | RangeError | TypeError

text \<open>An exception propagates: the rest of the computation runs on a normal result only.\<close>

definition and_then :: "'e + 'a \<Rightarrow> ('a \<Rightarrow> 'e + 'b) \<Rightarrow> 'e + 'b" where
  "and_then r f = (case r of Inl e \<Rightarrow> Inl e | Inr v \<Rightarrow> f v)"

definition isFinite :: "jsnum \<Rightarrow> bool" where
  "isFinite v = (case v of Fin x \<Rightarrow> True | NaN \<Rightarrow> False | PosInf \<Rightarrow> False | NegInf \<Rightarrow> False)"

fun js_neg :: "jsnum \<Rightarrow> jsnum" where
  "js_neg (Fin a) = Fin (- a)"
| "js_neg NaN = NaN"
| "js_neg PosInf = NegInf"
| "js_neg NegInf = PosInf"

fun js_add :: "jsnum \<Rightarrow> jsnum \<Rightarrow> jsnum" where
  "js_add (Fin a) (Fin b) = Fin (a + b)"
| "js_add NaN b = NaN"
| "js_add a NaN = NaN"
| "js_add PosInf NegInf = NaN"
| "js_add NegInf PosInf = NaN"
| "js_add PosInf b = PosInf"
| "js_add a PosInf = PosInf"
| "js_add NegInf b = NegInf"
| "js_add a NegInf = NegInf"

definition js_sub :: "jsnum \<Rightarrow> jsnum \<Rightarrow> jsnum" where
  "js_sub a b = js_add a (js_neg b)"

fun js_lt :: "jsnum \<Rightarrow> jsnum \<Rightarrow> bool" where
  "js_lt (Fin a) (Fin b) = (a < b)"
| "js_lt NaN b = False"
| "js_lt a NaN = False"
| "js_lt NegInf NegInf = False"
| "js_lt NegInf b = True"
| "js_lt a NegInf = False"
| "js_lt PosInf b = False"
| "js_lt a PosInf = True"

definition js_ge :: "jsnum \<Rightarrow> jsnum \<Rightarrow> bool" where
  "js_ge a b = (a \<noteq> NaN \<and> b \<noteq> NaN \<and> \<not> js_lt a b)"

definition js_strict_eq :: "jsnum \<Rightarrow> jsnum \<Rightarrow> bool" where
  "js_strict_eq a b = (a \<noteq> NaN \<and> b \<noteq> NaN \<and> a = b)"

definition Math_min :: "jsnum \<Rightarrow> jsnum \<Rightarrow> jsnum" where
  "Math_min a b = (if a = NaN \<or> b = NaN then NaN else if js_lt b a then b else a)"

definition Math_max :: "jsnum \<Rightarrow> jsnum \<Rightarrow> jsnum" where
  "Math_max a b = (if a = NaN \<or> b = NaN then NaN else if js_lt a b then b else a)"

definition trunc_num :: "real \<Rightarrow> int" where
  "trunc_num x = (if 0 \<le> x then \<lfloor>x\<rfloor> else \<lceil>x\<rceil>)"

fun Math_trunc :: "jsnum \<Rightarrow> jsnum" where
  "Math_trunc (Fin x) = Fin (of_int (trunc_num x))"
| "Math_trunc v = v"

text \<open>\<open>Math.round\<close> rounds to the nearest integer, a tie towards plus infinity.\<close>

fun Math_round :: "jsnum \<Rightarrow> jsnum" where
  "Math_round (Fin x) = Fin (of_int \<lfloor>x + 1 / 2\<rfloor>)"
| "Math_round v = v"

text \<open>The remainder operator \<open>%\<close>: the result takes the sign of the dividend.\<close>

fun js_rem :: "jsnum \<Rightarrow> jsnum \<Rightarrow> jsnum" where
  "js_rem (Fin a) (Fin b) = (if b = 0 then NaN else Fin (a - b * of_int (trunc_num (a / b))))"
| "js_rem (Fin a) PosInf = Fin a"
| "js_rem (Fin a) NegInf = Fin a"
| "js_rem a b = NaN"

subsection \<open>Numbers as text\<close>

definition digit_char :: "nat \<Rightarrow> char" where
  "digit_char d = ''0123456789'' ! d"

fun show_nat :: "nat \<Rightarrow> string" where
  "show_nat n = (if n < 10 then [digit_char n] else show_nat (n div 10) @ [digit_char (n mod 10)])"

declare show_nat.simps [simp del]

definition show_int :: "int \<Rightarrow> string" where
  "show_int i = (if i < 0 then CHR ''-'' # show_nat (nat (- i)) else show_nat (nat i))"

text \<open>
  A number inside a template literal.  An integer below \<open>10 ^ 21\<close> prints its decimal
  digits; the shortest round-trip rendering of any other finite double is a parameter
  \<open>render\<close>, since it is defined on the binary representation.
\<close>

definition js_toString :: "(real \<Rightarrow> string) \<Rightarrow> jsnum \<Rightarrow> string" where
  "js_toString render v =
     (case v of
        Fin x \<Rightarrow> (if of_int \<lfloor>x\<rfloor> = x \<and> \<bar>x\<bar> < 10 ^ 21 then show_int \<lfloor>x\<rfloor> else render x)
      | NaN \<Rightarrow> ''NaN''
      | PosInf \<Rightarrow> ''Infinity''
      | NegInf \<Rightarrow> ''-Infinity'')"

section \<open>recParser.ts: the codec\<close>

definition RECORD_BYTE_LENGTH :: nat where
  "RECORD_BYTE_LENGTH = 20"

definition UINT32_SIZE :: nat where
  "UINT32_SIZE = 4"

text \<open>The source's constant of this name is \<open>0x1_0000_0000\<close>, that is \<open>2 ^ 32\<close>.\<close>

definition UINT32_MAX :: jsnum where
  "UINT32_MAX = Fin 4294967296"

record EventCore =
  message :: jsnum
  paramL :: jsnum
  paramH :: jsnum
  hwnd :: jsnum

record EncodableEvent = EventCore +
  delay :: jsnum

record TinyTaskEvent = EncodableEvent +
  time :: jsnum

record ParseResult =
  events :: "TinyTaskEvent list"
  baseTime :: jsnum
  hwnds :: "jsnum list"
  duration :: jsnum

subsection \<open>DataView\<close>

fun le_to_nat :: "u8 list \<Rightarrow> nat" where
  "le_to_nat [] = 0"
| "le_to_nat (b # bs) = unat b + 256 * le_to_nat bs"

fun nat_to_le :: "nat \<Rightarrow> nat \<Rightarrow> u8 list" where
  "nat_to_le 0 n = []"
| "nat_to_le (Suc k) n = of_nat (n mod 256) # nat_to_le k (n div 256)"

text \<open>\<open>view.getUint32(offset, true)\<close>: four bytes, little endian; out of range throws.\<close>

definition getUint32 :: "u8 list \<Rightarrow> nat \<Rightarrow> js_error + jsnum" where
  "getUint32 view offset =
     (if offset + 4 \<le> length view
      then Inr (Fin (of_nat (le_to_nat (take 4 (drop offset view)))))
      else Inl RangeError)"

text \<open>The conversion \<open>ToUint32\<close> that \<open>setUint32\<close> applies to its argument.\<close>

definition js_ToUint32 :: "jsnum \<Rightarrow> nat" where
  "js_ToUint32 v = (case v of Fin x \<Rightarrow> nat (trunc_num x mod 4294967296) | NaN \<Rightarrow> 0 | PosInf \<Rightarrow> 0 | NegInf \<Rightarrow> 0)"

definition setUint32 :: "u8 list \<Rightarrow> nat \<Rightarrow> jsnum \<Rightarrow> js_error + u8 list" where
  "setUint32 view offset v =
     (if offset + 4 \<le> length view
      then Inr (take offset view @ nat_to_le 4 (js_ToUint32 v) @ drop (offset + 4) view)
      else Inl RangeError)"

subsection \<open>parseRec\<close>

definition diffUint32 :: "jsnum \<Rightarrow> jsnum \<Rightarrow> jsnum" where
  "diffUint32 current previous = js_rem (js_add (js_sub current previous) UINT32_MAX) UINT32_MAX"

text \<open>A \<open>Set\<close> keeps insertion order; \<open>add\<close> of a member changes nothing.\<close>

definition set_add :: "'a \<Rightarrow> 'a list \<Rightarrow> 'a list" where
  "set_add x xs = (if x \<in> set xs then xs else xs @ [x])"

text \<open>
  The loop's variables: \<open>events\<close>, \<open>hwndSet\<close>, \<open>previousAbsoluteTime\<close> and
  \<open>baseTime\<close> (a bound variable cannot take the name of a record field, so the
  locals that would are abbreviated).
\<close>

type_synonym parse_vars = "TinyTaskEvent list \<times> jsnum list \<times> jsnum \<times> jsnum"

definition parse_body :: "u8 list \<Rightarrow> nat \<Rightarrow> parse_vars \<Rightarrow> js_error + parse_vars" where
  "parse_body view index vars =
     (case vars of (evs, hwndSet, previousAbsoluteTime, base) \<Rightarrow>
      let offset = index * RECORD_BYTE_LENGTH in
      and_then (getUint32 view offset) (\<lambda>msg.
      and_then (getUint32 view (offset + UINT32_SIZE)) (\<lambda>pL.
      and_then (getUint32 view (offset + UINT32_SIZE * 2)) (\<lambda>pH.
      and_then (getUint32 view (offset + UINT32_SIZE * 3)) (\<lambda>absoluteTime.
      and_then (getUint32 view (offset + UINT32_SIZE * 4)) (\<lambda>win.
      if index = 0 then
        Inr (evs @ [\<lparr>message = msg, paramL = pL, paramH = pH, hwnd = win,
                     delay = Fin 0, time = Fin 0\<rparr>],
             set_add win hwndSet, absoluteTime, absoluteTime)
      else
        let elapsed = diffUint32 absoluteTime previousAbsoluteTime in
        if evs = [] then Inl TypeError
        else
          let previousEvent = last evs;
              t = js_add (time previousEvent) elapsed
          in Inr (evs @ [\<lparr>message = msg, paramL = pL, paramH = pH, hwnd = win,
                          delay = elapsed, time = t\<rparr>],
                  set_add win hwndSet, absoluteTime, base)))))))"

function parse_loop :: "u8 list \<Rightarrow> nat \<Rightarrow> nat \<Rightarrow> parse_vars \<Rightarrow> js_error + parse_vars" where
  "parse_loop view recordCount index vars =
     (if index < recordCount
      then (case parse_body view index vars of
              Inl e \<Rightarrow> Inl e
            | Inr vars' \<Rightarrow> parse_loop view recordCount (index + 1) vars')
      else Inr vars)"
  by pat_completeness auto
termination
  by (relation "measure (\<lambda>(view, recordCount, index, vars). recordCount - index)") auto

declare parse_loop.simps [simp del]

definition size_message :: "nat \<Rightarrow> string" where
  "size_message byteLength =
     ''Unexpected .rec size: '' @ show_nat byteLength @ '' bytes is not a multiple of ''
       @ show_nat RECORD_BYTE_LENGTH @ ''.''"

definition parseRec :: "u8 list \<Rightarrow> js_error + ParseResult" where
  "parseRec buffer =
     (if length buffer = 0 then
        Inr \<lparr>events = [], baseTime = Fin 0, hwnds = [], duration = Fin 0\<rparr>
      else if length buffer mod RECORD_BYTE_LENGTH \<noteq> 0 then
        Inl (Error (size_message (length buffer)))
      else
        let recordCount = length buffer div RECORD_BYTE_LENGTH in
        case parse_loop buffer recordCount 0 ([], [], Fin 0, Fin 0) of
          Inl e \<Rightarrow> Inl e
        | Inr (evs, hwndSet, previousAbsoluteTime, base) \<Rightarrow>
            Inr \<lparr>events = evs, baseTime = base, hwnds = hwndSet,
                 duration = (if evs = [] then Fin 0 else time (last evs))\<rparr>)"

subsection \<open>encodeRec\<close>

definition toUint32 :: "jsnum \<Rightarrow> jsnum" where
  "toUint32 v =
     (if \<not> isFinite v then Fin 0
      else let normalised = Math_trunc v
           in js_rem (js_add (js_rem normalised UINT32_MAX) UINT32_MAX) UINT32_MAX)"

text \<open>The body of the \<open>forEach\<close> callback: the new \<open>absoluteTime\<close> and the buffer.\<close>

definition encode_body ::
  "jsnum \<Rightarrow> EncodableEvent \<Rightarrow> nat \<Rightarrow> jsnum \<Rightarrow> u8 list \<Rightarrow> js_error + (jsnum \<times> u8 list)" where
  "encode_body base event index absoluteTime view =
     (let absoluteTime' =
            (if index = 0 then base
             else let increment = Math_max (Fin 0) (toUint32 (delay event))
                  in js_rem (js_add absoluteTime increment) UINT32_MAX);
          offset = index * RECORD_BYTE_LENGTH
      in
      and_then (setUint32 view offset (toUint32 (message event))) (\<lambda>v1.
      and_then (setUint32 v1 (offset + UINT32_SIZE) (toUint32 (paramL event))) (\<lambda>v2.
      and_then (setUint32 v2 (offset + UINT32_SIZE * 2) (toUint32 (paramH event))) (\<lambda>v3.
      and_then (setUint32 v3 (offset + UINT32_SIZE * 3) absoluteTime') (\<lambda>v4.
      and_then (setUint32 v4 (offset + UINT32_SIZE * 4) (toUint32 (hwnd event))) (\<lambda>v5.
      Inr (absoluteTime', v5)))))))"

fun encode_loop ::
  "jsnum \<Rightarrow> EncodableEvent list \<Rightarrow> nat \<Rightarrow> jsnum \<Rightarrow> u8 list \<Rightarrow> js_error + u8 list" where
  "encode_loop base [] index absoluteTime view = Inr view"
| "encode_loop base (event # rest) index absoluteTime view =
     (case encode_body base event index absoluteTime view of
        Inl e \<Rightarrow> Inl e
      | Inr (absoluteTime', view') \<Rightarrow> encode_loop base rest (index + 1) absoluteTime' view')"

text \<open>\<open>options.baseTime\<close> is optional: \<open>None\<close> is the absent field.\<close>

definition encodeRec :: "EncodableEvent list \<Rightarrow> jsnum option \<Rightarrow> js_error + u8 list" where
  "encodeRec evs options_baseTime =
     (if length evs = 0 then Inr []
      else
        let buffer = replicate (length evs * RECORD_BYTE_LENGTH) (0 :: u8);
            base = toUint32 (case options_baseTime of None \<Rightarrow> Fin 0 | Some b \<Rightarrow> b)
        in encode_loop base evs 0 base buffer)"

definition cloneAsEncodable :: "TinyTaskEvent list \<Rightarrow> EncodableEvent list" where
  "cloneAsEncodable evs =
     map (\<lambda>e. \<lparr>message = message e, paramL = paramL e, paramH = paramH e, hwnd = hwnd e,
              delay = delay e\<rparr>) evs"


section \<open>useRecEditor.ts: the editable sequence store\<close>

text \<open>
  The hook keeps its state in eleven variables; every operation it returns is modelled as
  a function from the state before the call to the state after it.  An operation runs to
  completion on the state of the render it closes over, as the single-threaded event loop
  has it.  The values that \<open>Date.now()\<close> and \<open>Math.random()\<close> return are parameters of the
  operations that call them.

  The field \<open>id\<close> of an event is \<open>eid\<close> here, \<open>id\<close> being the identity function.
\<close>

record EditorEvent = TinyTaskEvent +
  eid :: string

text \<open>
  The elements \<open>insertEvents\<close> receives: an event without \<open>id\<close> and \<open>time\<close>, whose
  \<open>delay\<close> may be absent.
\<close>

record EventTemplate = EventCore +
  delay_opt :: "jsnum option"

record EventMutationResult =
  next_events :: "EditorEvent list"
  selectionOverride :: "string set option"

text \<open>The optional fields of the second argument of \<open>commitEvents\<close>.\<close>

record CommitOptions =
  resetAnchor :: "bool option"
  trackHistory :: "bool option"

text \<open>The eleven state variables of the hook.\<close>

record RecEditor =
  events :: "EditorEvent list"
  initialEvents :: "EditorEvent list"
  baseTime :: jsnum
  fileName :: "string option"
  loading :: bool
  error :: "string option"
  isDirty :: bool
  selectedIds :: "string set"
  selectionAnchor :: "int option"
  history :: "EditorEvent list list"
  future :: "EditorEvent list list"

definition initial_state :: RecEditor where
  "initial_state =
     \<lparr>events = [], initialEvents = [], baseTime = Fin 0, fileName = None, loading = False,
      error = None, isDirty = False, selectedIds = {}, selectionAnchor = None,
      history = [], future = []\<rparr>"

definition HISTORY_LIMIT :: nat where
  "HISTORY_LIMIT = 50"

definition no_options :: CommitOptions where
  "no_options = \<lparr>resetAnchor = None, trackHistory = None\<rparr>"

definition sanitizeDelay :: "jsnum \<Rightarrow> jsnum" where
  "sanitizeDelay v =
     (if \<not> isFinite v \<or> js_lt v (Fin 0) then Fin 0
      else Math_min (Math_round v) (js_sub UINT32_MAX (Fin 1)))"

text \<open>The callback of \<open>events.map\<close> in \<open>recomputeTimeline\<close>, with the variable \<open>elapsed\<close>.\<close>

fun recompute_from :: "nat \<Rightarrow> jsnum \<Rightarrow> EditorEvent list \<Rightarrow> EditorEvent list" where
  "recompute_from index elapsed [] = []"
| "recompute_from index elapsed (event # rest) =
     (if index = 0
      then event\<lparr>delay := Fin 0, time := Fin 0\<rparr> # recompute_from (index + 1) (Fin 0) rest
      else
        let d = sanitizeDelay (delay event);
            elapsed' = js_add elapsed d
        in event\<lparr>delay := d, time := elapsed'\<rparr> # recompute_from (index + 1) elapsed' rest)"

definition recomputeTimeline :: "EditorEvent list \<Rightarrow> EditorEvent list" where
  "recomputeTimeline evs = recompute_from 0 (Fin 0) evs"

definition createEditorEvents :: "(real \<Rightarrow> string) \<Rightarrow> TinyTaskEvent list \<Rightarrow> EditorEvent list" where
  "createEditorEvents render evs =
     map (\<lambda>(event, index).
            \<lparr>message = message event, paramL = paramL event, paramH = paramH event,
             hwnd = hwnd event, delay = delay event, time = time event,
             eid = show_nat index @ ''-'' @ js_toString render (time event) @ ''-''
                     @ js_toString render (message event) @ ''-''
                     @ js_toString render (paramL event) @ ''-''
                     @ js_toString render (paramH event)\<rparr>)
         (zip evs [0..<length evs])"

text \<open>\<open>[...stack, snapshot]\<close>, then \<open>shift()\<close> when the limit is exceeded.\<close>

definition push_capped :: "'a list \<Rightarrow> 'a \<Rightarrow> 'a list" where
  "push_capped stack snapshot =
     (let nextStack = stack @ [snapshot]
      in if length nextStack > HISTORY_LIMIT then tl nextStack else nextStack)"

definition commitEvents ::
  "(EditorEvent list \<Rightarrow> EventMutationResult option) \<Rightarrow> CommitOptions \<Rightarrow> RecEditor \<Rightarrow> RecEditor" where
  "commitEvents mutator opts s =
     (let previous = events s in
      case mutator previous of
        None \<Rightarrow> (if resetAnchor opts = Some True then s\<lparr>selectionAnchor := None\<rparr> else s)
      | Some mutation \<Rightarrow>
          let recomputed = recomputeTimeline (next_events mutation);
              s1 = (if trackHistory opts \<noteq> Some False
                    then s\<lparr>history := push_capped (history s) previous, future := []\<rparr>
                    else s);
              s2 = s1\<lparr>isDirty := True\<rparr>;
              availableIds = set (map eid recomputed);
              s3 = s2\<lparr>selectedIds :=
                        (case selectionOverride mutation of
                           Some override \<Rightarrow> Set.filter (\<lambda>i. i \<in> availableIds) override
                         | None \<Rightarrow> Set.filter (\<lambda>i. i \<in> availableIds) (selectedIds s2))\<rparr>;
              s4 = (if resetAnchor opts = Some True \<or> selectionOverride mutation = Some {}
                    then s3\<lparr>selectionAnchor := None\<rparr> else s3)
          in s4\<lparr>events := recomputed\<rparr>)"

text \<open>
  The message the \<open>catch\<close> blocks store.  Every exception of the model is an \<open>Error\<close>
  instance; the text of the two built-in ones is the engine's.
\<close>

definition error_message :: "js_error \<Rightarrow> string" where
  "error_message err =
     (case err of
        Error m \<Rightarrow> m
      | RangeError \<Rightarrow> ''Offset is outside the bounds of the DataView''
      | TypeError \<Rightarrow> ''Cannot read properties of undefined'')"

text \<open>
  \<open>loadFile\<close> takes the file's name and bytes; the result is the returned
  \<open>LoadResult\<close> (\<open>fileName\<close>, \<open>baseTime\<close>) or \<open>None\<close> for \<open>undefined\<close>, and the new state.
\<close>

definition loadFile ::
  "(real \<Rightarrow> string) \<Rightarrow> string \<Rightarrow> u8 list \<Rightarrow> RecEditor \<Rightarrow> (string \<times> jsnum) option \<times> RecEditor" where
  "loadFile render name arrayBuffer s =
     (let s1 = s\<lparr>error := None, loading := True\<rparr> in
      case parseRec arrayBuffer of
        Inr parsed \<Rightarrow>
          let editorEvents = recomputeTimeline (createEditorEvents render (ParseResult.events parsed))
          in (Some (name, ParseResult.baseTime parsed),
              s1\<lparr>events := editorEvents, initialEvents := editorEvents,
                 baseTime := ParseResult.baseTime parsed, fileName := Some name,
                 isDirty := False, selectedIds := {}, selectionAnchor := None,
                 history := [], future := [], loading := False\<rparr>)
      | Inl err \<Rightarrow> (None, s1\<lparr>error := Some (error_message err), loading := False\<rparr>))"

text \<open>
  The callback \<open>updateDelay\<close> hands to \<open>commitEvents\<close>; \<open>didChange\<close> is the flag the
  \<open>map\<close> sets when it replaces an event.  The callbacks of the other edits follow the
  same pattern.
\<close>

definition updateDelay_mutation ::
  "string \<Rightarrow> jsnum \<Rightarrow> EditorEvent list \<Rightarrow> EventMutationResult option" where
  "updateDelay_mutation i normalized current =
     (let next = map (\<lambda>event.
                   if eid event \<noteq> i then event
                   else if js_strict_eq (delay event) normalized then event
                   else event\<lparr>delay := normalized\<rparr>) current;
          didChange = list_ex (\<lambda>event. eid event = i \<and> \<not> js_strict_eq (delay event) normalized) current
      in if \<not> didChange then None
         else Some \<lparr>next_events = next, selectionOverride = None\<rparr>)"

definition updateDelay :: "string \<Rightarrow> jsnum \<Rightarrow> RecEditor \<Rightarrow> RecEditor" where
  "updateDelay i v s =
     (let normalized = sanitizeDelay v
      in commitEvents (updateDelay_mutation i normalized) no_options s)"

definition removeEvent_mutation :: "string \<Rightarrow> EditorEvent list \<Rightarrow> EventMutationResult option" where
  "removeEvent_mutation i current =
     (if \<not> list_ex (\<lambda>event. eid event = i) current then None
      else Some \<lparr>next_events = filter (\<lambda>event. eid event \<noteq> i) current, selectionOverride = None\<rparr>)"

definition removeEvent :: "string \<Rightarrow> RecEditor \<Rightarrow> RecEditor" where
  "removeEvent i s = commitEvents (removeEvent_mutation i) no_options s"

definition resetChanges :: "RecEditor \<Rightarrow> RecEditor" where
  "resetChanges s =
     (if length (initialEvents s) = 0 then s
      else
        let snapshot = initialEvents s
        in s\<lparr>events := recomputeTimeline snapshot, isDirty := False, selectedIds := {},
             selectionAnchor := None, history := [], future := []\<rparr>)"

text \<open>
  The \<open>for\<close> loop of \<open>toggleSelection\<close>: \<open>events[cursor]\<close> is \<open>undefined\<close> out of range
  and the guard skips it.
\<close>

function select_range :: "EditorEvent list \<Rightarrow> int \<Rightarrow> int \<Rightarrow> string set \<Rightarrow> string set" where
  "select_range evs cursor stop acc =
     (if cursor \<le> stop
      then select_range evs (cursor + 1) stop
             (if 0 \<le> cursor \<and> cursor < int (length evs) then insert (eid (evs ! nat cursor)) acc
              else acc)
      else acc)"
  by pat_completeness auto
termination
  by (relation "measure (\<lambda>(evs, cursor, stop, acc). nat (stop + 1 - cursor))") auto

declare select_range.simps [simp del]

text \<open>
  \<open>toggleSelection(id, index, options)\<close>: the position is an integer; the two flags of
  \<open>options\<close> are optional.
\<close>

definition toggleSelection ::
  "string \<Rightarrow> int \<Rightarrow> bool option \<Rightarrow> bool option \<Rightarrow> RecEditor \<Rightarrow> RecEditor" where
  "toggleSelection i index shift_opt meta_opt s =
     (let shift = (case shift_opt of None \<Rightarrow> False | Some b \<Rightarrow> b);
          meta = (case meta_opt of None \<Rightarrow> False | Some b \<Rightarrow> b);
          anchor = (case selectionAnchor s of None \<Rightarrow> index | Some a \<Rightarrow> a)
      in
      if shift \<and> length (events s) \<noteq> 0 then
        let start = max 0 (min anchor index);
            stop = min (int (length (events s)) - 1) (max anchor index);
            next = select_range (events s) start stop (if meta then selectedIds s else {})
        in s\<lparr>selectedIds := next,
             selectionAnchor := (if selectionAnchor s = None then Some index else selectionAnchor s)\<rparr>
      else
        let next = (if i \<in> selectedIds s then selectedIds s - {i} else insert i (selectedIds s))
        in s\<lparr>selectedIds := next, selectionAnchor := (if next \<noteq> {} then Some index else None)\<rparr>)"

definition selectAll :: "RecEditor \<Rightarrow> RecEditor" where
  "selectAll s = s\<lparr>selectedIds := set (map eid (events s)), selectionAnchor := None\<rparr>"

definition clearSelection :: "RecEditor \<Rightarrow> RecEditor" where
  "clearSelection s = s\<lparr>selectedIds := {}, selectionAnchor := None\<rparr>"

definition applyToSelection_mutation ::
  "string set \<Rightarrow> (EditorEvent \<Rightarrow> nat \<Rightarrow> EditorEvent option) \<Rightarrow> EditorEvent list
     \<Rightarrow> EventMutationResult option" where
  "applyToSelection_mutation selected updater current =
     (let indexed = zip current [0..<length current];
          next = map (\<lambda>(event, index).
                   if eid event \<notin> selected then event
                   else (case updater event index of None \<Rightarrow> event | Some updated \<Rightarrow> updated))
                 indexed;
          didChange = list_ex (\<lambda>(event, index). eid event \<in> selected \<and> updater event index \<noteq> None)
                        indexed
      in if \<not> didChange then None
         else Some \<lparr>next_events = next, selectionOverride = None\<rparr>)"

definition applyToSelection :: "(EditorEvent \<Rightarrow> nat \<Rightarrow> EditorEvent option) \<Rightarrow> RecEditor \<Rightarrow> RecEditor" where
  "applyToSelection updater s =
     (if selectedIds s = {} then s
      else commitEvents (applyToSelection_mutation (selectedIds s) updater) no_options s)"

definition applyDelay_updater :: "jsnum \<Rightarrow> EditorEvent \<Rightarrow> nat \<Rightarrow> EditorEvent option" where
  "applyDelay_updater normalized event index =
     (if js_strict_eq (delay event) normalized then None
      else Some (event\<lparr>delay := normalized\<rparr>))"

definition applyDelayToSelection :: "jsnum \<Rightarrow> RecEditor \<Rightarrow> RecEditor" where
  "applyDelayToSelection v s = applyToSelection (applyDelay_updater (sanitizeDelay v)) s"

definition addDelay_updater :: "jsnum \<Rightarrow> EditorEvent \<Rightarrow> nat \<Rightarrow> EditorEvent option" where
  "addDelay_updater deltaRounded event index =
     (let nextDelay = sanitizeDelay (js_add (delay event) deltaRounded)
      in if js_strict_eq nextDelay (delay event) then None
         else Some (event\<lparr>delay := nextDelay\<rparr>))"

definition addDelayToSelection :: "jsnum \<Rightarrow> RecEditor \<Rightarrow> RecEditor" where
  "addDelayToSelection delta s = applyToSelection (addDelay_updater (Math_round delta)) s"

definition clamp_updater :: "jsnum \<Rightarrow> EditorEvent \<Rightarrow> nat \<Rightarrow> EditorEvent option" where
  "clamp_updater limit event index =
     (if index = 0 then None
      else if js_strict_eq (delay event) (Fin 0) \<or> js_ge (delay event) limit then None
      else Some (event\<lparr>delay := Fin 0\<rparr>))"

definition clampSmallDelays :: "jsnum \<Rightarrow> RecEditor \<Rightarrow> RecEditor" where
  "clampSmallDelays threshold s =
     applyToSelection (clamp_updater (Math_max (Fin 0) (Math_round threshold))) s"

definition deleteSelected_mutation ::
  "string set \<Rightarrow> EditorEvent list \<Rightarrow> EventMutationResult option" where
  "deleteSelected_mutation selected current =
     (let next = filter (\<lambda>event. eid event \<notin> selected) current
      in if length next = length current then None
         else Some \<lparr>next_events = next, selectionOverride = Some {}\<rparr>)"

definition deleteSelected :: "RecEditor \<Rightarrow> RecEditor" where
  "deleteSelected s =
     (if selectedIds s = {} then s
      else commitEvents (deleteSelected_mutation (selectedIds s))
             \<lparr>resetAnchor = Some True, trackHistory = None\<rparr> s)"

text \<open>
  \<open>insertEvents\<close> reads the clock and the random generator once per inserted element:
  \<open>clock i\<close> and \<open>random i\<close> are the values \<open>Date.now()\<close> and \<open>Math.random()\<close> return
  for element \<open>i\<close>.
\<close>

definition new_id :: "(real \<Rightarrow> string) \<Rightarrow> (nat \<Rightarrow> nat) \<Rightarrow> (nat \<Rightarrow> jsnum) \<Rightarrow> nat \<Rightarrow> string" where
  "new_id render clock random i =
     ''new-'' @ show_nat (clock i) @ ''-'' @ show_nat i @ ''-'' @ js_toString render (random i)"

definition insertEvents_mutation ::
  "(real \<Rightarrow> string) \<Rightarrow> (nat \<Rightarrow> nat) \<Rightarrow> (nat \<Rightarrow> jsnum) \<Rightarrow> int \<Rightarrow> EventTemplate list \<Rightarrow> jsnum
     \<Rightarrow> EditorEvent list \<Rightarrow> EventMutationResult option" where
  "insertEvents_mutation render clock random index newEvents delayTotal current =
     (let clampedIndex = nat (max 0 (min index (int (length current))));
          eventsToAdd =
            map (\<lambda>(e, i).
                   \<lparr>message = message e, paramL = paramL e, paramH = paramH e, hwnd = hwnd e,
                    delay = (if i = 0 then delayTotal
                             else (case delay_opt e of None \<Rightarrow> Fin 0 | Some d \<Rightarrow> d)),
                    time = Fin 0,
                    eid = new_id render clock random i\<rparr>)
                (zip newEvents [0..<length newEvents]);
          next = take clampedIndex current @ eventsToAdd @ drop clampedIndex current
      in Some \<lparr>next_events = next, selectionOverride = None\<rparr>)"

definition insertEvents ::
  "(real \<Rightarrow> string) \<Rightarrow> (nat \<Rightarrow> nat) \<Rightarrow> (nat \<Rightarrow> jsnum) \<Rightarrow> int \<Rightarrow> EventTemplate list \<Rightarrow> jsnum
     \<Rightarrow> RecEditor \<Rightarrow> RecEditor" where
  "insertEvents render clock random index newEvents delayTotal s =
     commitEvents (insertEvents_mutation render clock random index newEvents delayTotal) no_options s"

text \<open>An \<open>EditorEvent\<close> passed where a template is expected: its \<open>delay\<close> is present.\<close>

definition as_template :: "EditorEvent \<Rightarrow> EventTemplate" where
  "as_template e =
     \<lparr>message = message e, paramL = paramL e, paramH = paramH e, hwnd = hwnd e,
      delay_opt = Some (delay e)\<rparr>"

definition mergeFile ::
  "(real \<Rightarrow> string) \<Rightarrow> (nat \<Rightarrow> nat) \<Rightarrow> (nat \<Rightarrow> jsnum) \<Rightarrow> u8 list \<Rightarrow> RecEditor \<Rightarrow> RecEditor" where
  "mergeFile render clock random arrayBuffer s =
     (let s1 = s\<lparr>error := None, loading := True\<rparr> in
      case parseRec arrayBuffer of
        Inr parsed \<Rightarrow>
          let newEvents = createEditorEvents render (ParseResult.events parsed)
          in (insertEvents render clock random (int (length (events s)))
                (map as_template newEvents) (Fin 0) s1)\<lparr>loading := False\<rparr>
      | Inl err \<Rightarrow> s1\<lparr>error := Some (error_message err), loading := False\<rparr>)"

definition undo :: "RecEditor \<Rightarrow> RecEditor" where
  "undo s =
     (if length (history s) = 0 then s
      else
        let snapshot = last (history s)
        in s\<lparr>future := push_capped (future s) (events s),
             events := recomputeTimeline snapshot,
             selectedIds := {}, selectionAnchor := None, isDirty := True,
             history := butlast (history s)\<rparr>)"

definition redo :: "RecEditor \<Rightarrow> RecEditor" where
  "redo s =
     (if length (future s) = 0 then s
      else
        let snapshot = last (future s)
        in s\<lparr>history := push_capped (history s) (events s),
             events := recomputeTimeline snapshot,
             selectedIds := {}, selectionAnchor := None, isDirty := True,
             future := butlast (future s)\<rparr>)"

subsection \<open>The operations as actions\<close>

datatype action =
    LoadFile string "u8 list"
  | MergeFile "nat \<Rightarrow> nat" "nat \<Rightarrow> jsnum" "u8 list"
  | UpdateDelay string jsnum
  | RemoveEvent string
  | InsertEvents "nat \<Rightarrow> nat" "nat \<Rightarrow> jsnum" int "EventTemplate list" jsnum
  | ResetChanges
  | ToggleSelection string int "bool option" "bool option"
  | SelectAll
  | ClearSelection
  | ApplyDelayToSelection jsnum
  | AddDelayToSelection jsnum
  | ClampSmallDelays jsnum
  | DeleteSelected
  | Undo
  | Redo

fun perform :: "(real \<Rightarrow> string) \<Rightarrow> action \<Rightarrow> RecEditor \<Rightarrow> RecEditor" where
  "perform render (LoadFile name bytes) s = snd (loadFile render name bytes s)"
| "perform render (MergeFile clock random bytes) s = mergeFile render clock random bytes s"
| "perform render (UpdateDelay i v) s = updateDelay i v s"
| "perform render (RemoveEvent i) s = removeEvent i s"
| "perform render (InsertEvents clock random index newEvents delayTotal) s =
     insertEvents render clock random index newEvents delayTotal s"
| "perform render ResetChanges s = resetChanges s"
| "perform render (ToggleSelection i index shift meta) s = toggleSelection i index shift meta s"
| "perform render SelectAll s = selectAll s"
| "perform render ClearSelection s = clearSelection s"
| "perform render (ApplyDelayToSelection v) s = applyDelayToSelection v s"
| "perform render (AddDelayToSelection delta) s = addDelayToSelection delta s"
| "perform render (ClampSmallDelays threshold) s = clampSmallDelays threshold s"
| "perform render DeleteSelected s = deleteSelected s"
| "perform render Undo s = undo s"
| "perform render Redo s = redo s"

inductive reachable :: "(real \<Rightarrow> string) \<Rightarrow> RecEditor \<Rightarrow> bool" for render where
  start: "reachable render initial_state"
| step: "reachable render s \<Longrightarrow> reachable render (perform render a s)"

section \<open>Notions used in the statements and proofs\<close>

subsection \<open>The decoder's result in closed form\<close>

text \<open>
  The 32-bit field at a byte offset, the absolute timestamp of record \<open>k\<close>, the forward
  wrap-around difference to the record before it, and the event record \<open>k\<close> decodes to.
\<close>

definition word_at :: "u8 list \<Rightarrow> nat \<Rightarrow> nat" where
  "word_at view off = le_to_nat (take 4 (drop off view))"

definition stamp :: "u8 list \<Rightarrow> nat \<Rightarrow> nat" where
  "stamp view k = word_at view (20 * k + 12)"

definition gap :: "u8 list \<Rightarrow> nat \<Rightarrow> nat" where
  "gap view k =
     (if k = 0 then 0 else (stamp view k + 4294967296 - stamp view (k - 1)) mod 4294967296)"

definition decoded :: "u8 list \<Rightarrow> nat \<Rightarrow> TinyTaskEvent" where
  "decoded view k =
     \<lparr>message = Fin (of_nat (word_at view (20 * k))),
      paramL = Fin (of_nat (word_at view (20 * k + 4))),
      paramH = Fin (of_nat (word_at view (20 * k + 8))),
      hwnd = Fin (of_nat (word_at view (20 * k + 16))),
      delay = Fin (of_nat (gap view k)),
      time = Fin (of_nat (sum (gap view) {..k}))\<rparr>"

definition encodable :: "TinyTaskEvent \<Rightarrow> EncodableEvent" where
  "encodable e =
     \<lparr>message = message e, paramL = paramL e, paramH = paramH e, hwnd = hwnd e, delay = delay e\<rparr>"

subsection \<open>The timeline invariant\<close>

text \<open>
  The first event has time and delay 0; every later time is the time before it plus the
  event's own delay, and not smaller.  The comparisons are those of the language, so they
  also say that no value is \<open>NaN\<close>.
\<close>

definition timeline_ok :: "EditorEvent list \<Rightarrow> bool" where
  "timeline_ok evs =
     ((evs \<noteq> [] \<longrightarrow> js_strict_eq (time (evs ! 0)) (Fin 0) \<and> js_strict_eq (delay (evs ! 0)) (Fin 0)) \<and>
      (\<forall>i \<in> {1..<length evs}.
         js_strict_eq (time (evs ! i)) (js_add (time (evs ! (i - 1))) (delay (evs ! i))) \<and>
         js_ge (time (evs ! i)) (time (evs ! (i - 1)))))"

text \<open>The same, as a recursion from the time \<open>a\<close> of the event before the list.\<close>

fun chain :: "real \<Rightarrow> EditorEvent list \<Rightarrow> bool" where
  "chain a [] = True"
| "chain a (y # ys) =
     (case delay y of
        Fin d \<Rightarrow> 0 \<le> d \<and> time y = Fin (a + d) \<and> chain (a + d) ys
      | NaN \<Rightarrow> False
      | PosInf \<Rightarrow> False
      | NegInf \<Rightarrow> False)"

subsection \<open>Sequences of edits\<close>

definition run :: "(real \<Rightarrow> string) \<Rightarrow> action list \<Rightarrow> RecEditor \<Rightarrow> RecEditor" where
  "run render acts s = foldl (\<lambda>t a. perform render a t) s acts"

text \<open>
  An action is a mutation in a state when it is an edit whose callback hands
  \<open>commitEvents\<close> a result, so that a new working sequence is committed.
\<close>

fun mutates :: "(real \<Rightarrow> string) \<Rightarrow> action \<Rightarrow> RecEditor \<Rightarrow> bool" where
  "mutates render (UpdateDelay i v) s =
     (updateDelay_mutation i (sanitizeDelay v) (events s) \<noteq> None)"
| "mutates render (RemoveEvent i) s = (removeEvent_mutation i (events s) \<noteq> None)"
| "mutates render (InsertEvents clock random index newEvents delayTotal) s = True"
| "mutates render (MergeFile clock random bytes) s =
     (case parseRec bytes of Inr parsed \<Rightarrow> True | Inl err \<Rightarrow> False)"
| "mutates render (ApplyDelayToSelection v) s =
     (selectedIds s \<noteq> {} \<and>
      applyToSelection_mutation (selectedIds s) (applyDelay_updater (sanitizeDelay v)) (events s) \<noteq> None)"
| "mutates render (AddDelayToSelection delta) s =
     (selectedIds s \<noteq> {} \<and>
      applyToSelection_mutation (selectedIds s) (addDelay_updater (Math_round delta)) (events s) \<noteq> None)"
| "mutates render (ClampSmallDelays threshold) s =
     (selectedIds s \<noteq> {} \<and>
      applyToSelection_mutation (selectedIds s)
        (clamp_updater (Math_max (Fin 0) (Math_round threshold))) (events s) \<noteq> None)"
| "mutates render DeleteSelected s =
     (selectedIds s \<noteq> {} \<and> deleteSelected_mutation (selectedIds s) (events s) \<noteq> None)"
| "mutates render (LoadFile name bytes) s = False"
| "mutates render ResetChanges s = False"
| "mutates render (ToggleSelection i index shift meta) s = False"
| "mutates render SelectAll s = False"
| "mutates render ClearSelection s = False"
| "mutates render Undo s = False"
| "mutates render Redo s = False"

fun all_mutate :: "(real \<Rightarrow> string) \<Rightarrow> action list \<Rightarrow> RecEditor \<Rightarrow> bool" where
  "all_mutate render [] s = True"
| "all_mutate render (a # acts) s = (mutates render a s \<and> all_mutate render acts (perform render a s))"

subsection \<open>The selection invariant\<close>

definition selection_ok :: "RecEditor \<Rightarrow> bool" where
  "selection_ok s = (selectedIds s \<subseteq> set (map eid (events s)))"

text \<open>A toggle names an event of the working sequence.\<close>

fun toggle_present :: "action \<Rightarrow> RecEditor \<Rightarrow> bool" where
  "toggle_present (ToggleSelection i index shift meta) s = (i \<in> set (map eid (events s)))"
| "toggle_present a s = True"

subsection \<open>A sample recording\<close>

text \<open>
  Three records for window 1: a mouse move (message \<open>0x200\<close>) at timestamp 100, a
  button press (\<open>0x201\<close>) at 132 and its release (\<open>0x202\<close>) at 140; the store after
  loading them; a clock and a random generator that return the same value at every call;
  and the store after merging the same file once.
\<close>

definition sample_render :: "real \<Rightarrow> string" where
  "sample_render x = ''0.5''"

definition sample_file :: "u8 list" where
  "sample_file =
     [0, 2, 0, 0, 7, 0, 0, 0, 9, 0, 0, 0, 100, 0, 0, 0, 1, 0, 0, 0,
      1, 2, 0, 0, 0, 0, 0, 0, 0, 0, 0, 0, 132, 0, 0, 0, 1, 0, 0, 0,
      2, 2, 0, 0, 0, 0, 0, 0, 0, 0, 0, 0, 140, 0, 0, 0, 1, 0, 0, 0]"

definition loaded :: RecEditor where
  "loaded = perform sample_render (LoadFile ''a.rec'' sample_file) initial_state"

definition sample_clock :: "nat \<Rightarrow> nat" where
  "sample_clock i = 1762087654321"

definition sample_random :: "nat \<Rightarrow> jsnum" where
  "sample_random i = Fin (1 / 2)"

definition merged_once :: RecEditor where
  "merged_once = mergeFile sample_render sample_clock sample_random sample_file loaded"

subsection \<open>Further notions\<close>

text \<open>The working sequence after a merge.\<close>

definition merged ::
  "(real \<Rightarrow> string) \<Rightarrow> (nat \<Rightarrow> nat) \<Rightarrow> (nat \<Rightarrow> jsnum) \<Rightarrow> u8 list \<Rightarrow> RecEditor
     \<Rightarrow> EditorEvent list" where
  "merged render clock random bytes s = events (mergeFile render clock random bytes s)"

text \<open>
  The working sequence and every snapshot of the two stacks are fixed points of the
  normaliser.
\<close>

definition store_invariant :: "RecEditor \<Rightarrow> bool" where
  "store_invariant s =
     (recomputeTimeline (events s) = events s \<and>
      (\<forall>x \<in> set (history s). recomputeTimeline x = x) \<and>
      (\<forall>x \<in> set (future s). recomputeTimeline x = x))"

section \<open>Properties of the codec\<close>

subsection \<open>Bytes and numbers\<close>

lemma and_then_Inr [simp]: "and_then (Inr v) f = f v"
  by (simp add: and_then_def)

lemma unat_u8_less: "unat (b :: u8) < 256"
  using unsigned_less [of b, where ?'a = nat] by simp

lemma le_to_nat_bound: "le_to_nat bs < 256 ^ length bs"
proof (induction bs)
  case Nil
  show ?case by simp
next
  case (Cons b bs)
  have "unat b < 256" by (rule unat_u8_less)
  with Cons show ?case by simp
qed

lemma nat_to_le_le_to_nat: "nat_to_le (length bs) (le_to_nat bs) = bs"
proof (induction bs)
  case Nil
  show ?case by simp
next
  case (Cons b bs)
  have b: "unat b < 256" by (rule unat_u8_less)
  then have "(unat b + 256 * le_to_nat bs) mod 256 = unat b" by simp
  moreover from b have "(unat b + 256 * le_to_nat bs) div 256 = le_to_nat bs" by simp
  ultimately show ?case using Cons by simp
qed

lemma length_nat_to_le [simp]: "length (nat_to_le k n) = k"
  by (induction k arbitrary: n) simp_all

lemma trunc_num_of_int [simp]: "trunc_num (of_int i) = i"
  by (simp add: trunc_num_def)

lemma trunc_num_of_nat [simp]: "trunc_num (of_nat n) = int n"
  using trunc_num_of_int [of "int n"] by simp

lemma js_rem_of_nat: "js_rem (Fin (of_nat a)) UINT32_MAX = Fin (of_nat (a mod 4294967296))"
proof -
  have f: "\<lfloor>(of_nat a :: real) / 4294967296\<rfloor> = int (a div 4294967296)"
    using floor_divide_of_nat_eq [of a 4294967296, where ?'a = real] by simp
  have "(of_nat a :: real) - 4294967296 * of_int (int (a div 4294967296)) = of_nat (a mod 4294967296)"
  proof -
    have "a = 4294967296 * (a div 4294967296) + a mod 4294967296" by simp
    then have "(of_nat a :: real) = of_nat (4294967296 * (a div 4294967296) + a mod 4294967296)"
      by simp
    also have "\<dots> = 4294967296 * of_nat (a div 4294967296) + of_nat (a mod 4294967296)"
      by (simp only: of_nat_add of_nat_mult of_nat_numeral)
    finally show ?thesis by simp
  qed
  then show ?thesis by (simp add: UINT32_MAX_def trunc_num_def f)
qed

lemma toUint32_of_nat: "toUint32 (Fin (of_nat a)) = Fin (of_nat (a mod 4294967296))"
proof -
  have "js_add (Fin (of_nat (a mod 4294967296))) UINT32_MAX = Fin (of_nat (a mod 4294967296 + 4294967296))"
    by (simp add: UINT32_MAX_def)
  then show ?thesis
    by (simp add: toUint32_def isFinite_def js_rem_of_nat del: of_nat_add)
qed

lemma diffUint32_of_nat:
  assumes "p \<le> 4294967296"
  shows "diffUint32 (Fin (of_nat c)) (Fin (of_nat p)) =
           Fin (of_nat ((c + 4294967296 - p) mod 4294967296))"
proof -
  have "js_add (js_sub (Fin (of_nat c)) (Fin (of_nat p))) UINT32_MAX = Fin (of_nat (c + 4294967296 - p))"
    using assms by (simp add: UINT32_MAX_def js_sub_def of_nat_diff)
  then show ?thesis
    by (simp add: diffUint32_def js_rem_of_nat del: of_nat_add)
qed

lemma js_ToUint32_of_nat: "js_ToUint32 (Fin (of_nat a)) = a mod 4294967296"
proof -
  have "int a mod 4294967296 = int (a mod 4294967296)"
    by (simp add: zmod_int)
  then show ?thesis by (simp add: js_ToUint32_def del: of_nat_mod)
qed

lemma word_at_bound: "word_at view off < 4294967296"
proof -
  have "le_to_nat (take 4 (drop off view)) < 256 ^ length (take 4 (drop off view))"
    by (rule le_to_nat_bound)
  also have "\<dots> \<le> (256 :: nat) ^ 4"
    by (rule power_increasing) simp_all
  finally show ?thesis by (simp add: word_at_def)
qed

lemma getUint32_word_at:
  "off + 4 \<le> length view \<Longrightarrow> getUint32 view off = Inr (Fin (of_nat (word_at view off)))"
  by (simp add: getUint32_def word_at_def)

subsection \<open>The decoding loop\<close>

lemma parse_body_decoded:
  assumes len: "20 * Suc k \<le> length view"
    and prev: "0 < k \<longrightarrow> prev = Fin (of_nat (stamp view (k - 1)))"
  shows "parse_body view k (map (decoded view) [0..<k], hw, prev, base) =
           Inr (map (decoded view) [0..<Suc k],
                set_add (Fin (of_nat (word_at view (20 * k + 16)))) hw,
                Fin (of_nat (stamp view k)),
                if k = 0 then Fin (of_nat (stamp view 0)) else base)"
proof (cases "k = 0")
  case True
  with len show ?thesis
    by (simp add: parse_body_def RECORD_BYTE_LENGTH_def UINT32_SIZE_def getUint32_word_at
        decoded_def gap_def stamp_def)
next
  case False
  then have k: "0 < k" by simp
  with prev have p: "prev = Fin (of_nat (stamp view (k - 1)))" by simp
  have b: "stamp view (k - 1) \<le> 4294967296"
    using word_at_bound [of view "20 * (k - 1) + 12"] by (simp add: stamp_def)
  have d: "diffUint32 (Fin (of_nat (word_at view (20 * k + 12)))) prev = Fin (of_nat (gap view k))"
    unfolding p using k diffUint32_of_nat [OF b, of "stamp view k"]
    by (simp add: gap_def) (simp add: stamp_def)
  have l: "last (map (decoded view) [0..<k]) = decoded view (k - 1)"
    using k by (simp add: last_map)
  have s: "{..k} = insert k {..k - 1}"
    using k by auto
  have t: "sum (gap view) {..k} = sum (gap view) {..k - 1} + gap view k"
    using k by (subst s) simp
  have tm: "js_add (time (decoded view (k - 1))) (Fin (of_nat (gap view k))) = time (decoded view k)"
    by (simp add: decoded_def t)
  have nonempty: "map (decoded view) [0..<k] \<noteq> []"
    using k by simp
  have c: "k * 20 = 20 * k" by simp
  have e: "decoded view k =
      \<lparr>message = Fin (of_nat (word_at view (20 * k))),
       paramL = Fin (of_nat (word_at view (20 * k + 4))),
       paramH = Fin (of_nat (word_at view (20 * k + 8))),
       hwnd = Fin (of_nat (word_at view (20 * k + 16))),
       delay = Fin (of_nat (gap view k)),
       time = js_add (time (decoded view (k - 1))) (Fin (of_nat (gap view k)))\<rparr>"
    unfolding tm by (simp add: decoded_def)
  show ?thesis
    using len k nonempty
    by (simp add: parse_body_def RECORD_BYTE_LENGTH_def UINT32_SIZE_def c getUint32_word_at d l
        Let_def stamp_def) (simp add: e)
qed

lemma parse_loop_decoded:
  assumes "k \<le> n" and "20 * n \<le> length view"
    and "0 < k \<longrightarrow> prev = Fin (of_nat (stamp view (k - 1)))"
  shows "\<exists>hw' prev'. parse_loop view n k (map (decoded view) [0..<k], hw, prev, base) =
           Inr (map (decoded view) [0..<n], hw', prev',
                if k = 0 \<and> 0 < n then Fin (of_nat (stamp view 0)) else base)"
  using assms
proof (induction "n - k" arbitrary: k hw prev base)
  case 0
  then have "k = n" by simp
  then show ?case by (subst parse_loop.simps) auto
next
  case (Suc d)
  then have kn: "k < n" by simp
  then have len: "20 * Suc k \<le> length view" using Suc.prems(2) by simp
  note body = parse_body_decoded [OF len Suc.prems(3), of hw base]
  have "d = n - Suc k" using Suc.hyps(2) by simp
  from Suc.hyps(1) [OF this, of "Fin (of_nat (stamp view k))"
      "set_add (Fin (of_nat (word_at view (20 * k + 16)))) hw"
      "if k = 0 then Fin (of_nat (stamp view 0)) else base"] kn Suc.prems(2)
  obtain hw' prev' where
    "parse_loop view n (Suc k) (map (decoded view) [0..<Suc k],
        set_add (Fin (of_nat (word_at view (20 * k + 16)))) hw, Fin (of_nat (stamp view k)),
        if k = 0 then Fin (of_nat (stamp view 0)) else base) =
      Inr (map (decoded view) [0..<n], hw', prev',
           if Suc k = 0 \<and> 0 < n then Fin (of_nat (stamp view 0))
           else if k = 0 then Fin (of_nat (stamp view 0)) else base)"
    by auto
  then show ?case
    using kn body by (subst parse_loop.simps) auto
qed

subsection \<open>The encoding loop\<close>

lemma setUint32_append:
  assumes "4 \<le> length post" and "off = length pre"
  shows "setUint32 (pre @ post) off v = Inr ((pre @ nat_to_le 4 (js_ToUint32 v)) @ drop 4 post)"
  using assms by (simp add: setUint32_def)

lemma written_word:
  assumes "off + 4 \<le> length view"
  shows "nat_to_le 4 (js_ToUint32 (toUint32 (Fin (of_nat (word_at view off))))) = take 4 (drop off view)"
proof -
  have l: "length (take 4 (drop off view)) = 4" using assms by simp
  have m: "word_at view off mod 4294967296 = word_at view off"
    using word_at_bound [of view off] by simp
  have "nat_to_le (length (take 4 (drop off view))) (le_to_nat (take 4 (drop off view)))
      = take 4 (drop off view)"
    by (rule nat_to_le_le_to_nat)
  then show ?thesis
    unfolding l by (simp add: toUint32_of_nat js_ToUint32_of_nat m word_at_def [symmetric])
qed

lemma written_stamp:
  assumes "off + 4 \<le> length view"
  shows "nat_to_le 4 (js_ToUint32 (Fin (of_nat (word_at view off)))) = take 4 (drop off view)"
proof -
  have l: "length (take 4 (drop off view)) = 4" using assms by simp
  have m: "word_at view off mod 4294967296 = word_at view off"
    using word_at_bound [of view off] by simp
  have "nat_to_le (length (take 4 (drop off view))) (le_to_nat (take 4 (drop off view)))
      = take 4 (drop off view)"
    by (rule nat_to_le_le_to_nat)
  then show ?thesis
    unfolding l by (simp add: js_ToUint32_of_nat m word_at_def [symmetric])
qed

lemma next_stamp:
  assumes "0 < k"
  shows "js_rem (js_add (Fin (of_nat (stamp view (k - 1))))
            (Math_max (Fin 0) (toUint32 (Fin (of_nat (gap view k)))))) UINT32_MAX =
         Fin (of_nat (stamp view k))"
proof -
  have s: "stamp view k < 4294967296" and s': "stamp view (k - 1) < 4294967296"
    by (simp_all add: stamp_def word_at_bound)
  have g: "gap view k = (stamp view k + 4294967296 - stamp view (k - 1)) mod 4294967296"
    using assms by (simp add: gap_def)
  have t: "toUint32 (Fin (of_nat (gap view k))) = Fin (of_nat (gap view k))"
    by (simp add: toUint32_of_nat g)
  have m: "Math_max (Fin 0) (Fin (of_nat (gap view k))) = Fin (of_nat (gap view k))"
    by (simp add: Math_max_def)
  have a: "js_add (Fin (of_nat (stamp view (k - 1)))) (Fin (of_nat (gap view k))) =
           Fin (of_nat (stamp view (k - 1) + gap view k))"
    by simp
  have "(stamp view (k - 1) + gap view k) mod 4294967296 =
        (stamp view (k - 1) + (stamp view k + 4294967296 - stamp view (k - 1))) mod 4294967296"
    unfolding g by (simp add: mod_add_right_eq)
  also have "\<dots> = (stamp view k + 4294967296) mod 4294967296"
    using s' by simp
  also have "\<dots> = stamp view k"
    using s by simp
  finally show ?thesis
    unfolding t m a by (simp add: js_rem_of_nat del: of_nat_add)
qed

lemma take_20_split:
  "take 4 (drop off view) @ take 4 (drop (off + 4) view) @ take 4 (drop (off + 8) view)
     @ take 4 (drop (off + 12) view) @ take 4 (drop (off + 16) view) = take 20 (drop off view)"
proof -
  have "take 20 (drop off view) = take 4 (drop off view) @ take 16 (drop 4 (drop off view))"
    using take_add [of 4 16 "drop off view"] by simp
  also have "take 16 (drop 4 (drop off view)) =
      take 4 (drop 4 (drop off view)) @ take 12 (drop 8 (drop off view))"
    using take_add [of 4 12 "drop 4 (drop off view)"] by simp
  also have "take 12 (drop 8 (drop off view)) =
      take 4 (drop 8 (drop off view)) @ take 8 (drop 12 (drop off view))"
    using take_add [of 4 8 "drop 8 (drop off view)"] by simp
  also have "take 8 (drop 12 (drop off view)) =
      take 4 (drop 12 (drop off view)) @ take 4 (drop 16 (drop off view))"
    using take_add [of 4 4 "drop 12 (drop off view)"] by simp
  finally show ?thesis by (simp add: add.commute)
qed

lemma write_five:
  assumes post: "20 \<le> length post" and off: "off = length pre"
  shows "and_then (setUint32 (pre @ post) off a) (\<lambda>v1.
         and_then (setUint32 v1 (off + 4) b) (\<lambda>v2.
         and_then (setUint32 v2 (off + 4 * 2) c) (\<lambda>v3.
         and_then (setUint32 v3 (off + 4 * 3) d) (\<lambda>v4.
         and_then (setUint32 v4 (off + 4 * 4) e) (\<lambda>v5. Inr (x, v5)))))) =
         Inr (x, pre @ nat_to_le 4 (js_ToUint32 a) @ nat_to_le 4 (js_ToUint32 b)
                 @ nat_to_le 4 (js_ToUint32 c) @ nat_to_le 4 (js_ToUint32 d)
                 @ nat_to_le 4 (js_ToUint32 e) @ drop 20 post)"
proof -
  let ?W = "\<lambda>v. nat_to_le 4 (js_ToUint32 v)"
  have s0: "setUint32 (pre @ post) off a = Inr ((pre @ ?W a) @ drop 4 post)"
    using post off by (intro setUint32_append) simp_all
  have s1: "setUint32 ((pre @ ?W a) @ drop 4 post) (off + 4) b
        = Inr (((pre @ ?W a) @ ?W b) @ drop 4 (drop 4 post))"
    using post off by (intro setUint32_append) simp_all
  have s2: "setUint32 (((pre @ ?W a) @ ?W b) @ drop 4 (drop 4 post)) (off + 4 * 2) c
        = Inr ((((pre @ ?W a) @ ?W b) @ ?W c) @ drop 4 (drop 4 (drop 4 post)))"
    using post off by (intro setUint32_append) simp_all
  have s3: "setUint32 ((((pre @ ?W a) @ ?W b) @ ?W c) @ drop 4 (drop 4 (drop 4 post))) (off + 4 * 3) d
        = Inr (((((pre @ ?W a) @ ?W b) @ ?W c) @ ?W d) @ drop 4 (drop 4 (drop 4 (drop 4 post))))"
    using post off by (intro setUint32_append) simp_all
  have s4: "setUint32 (((((pre @ ?W a) @ ?W b) @ ?W c) @ ?W d) @ drop 4 (drop 4 (drop 4 (drop 4 post))))
          (off + 4 * 4) e
        = Inr ((((((pre @ ?W a) @ ?W b) @ ?W c) @ ?W d) @ ?W e)
               @ drop 4 (drop 4 (drop 4 (drop 4 (drop 4 post)))))"
    using post off by (intro setUint32_append) simp_all
  show ?thesis
    unfolding s0 and_then_Inr s1 s2 s3 s4 by simp
qed

lemma encode_body_decoded:
  assumes len: "20 * Suc k \<le> length view" and buf: "20 * Suc k \<le> length buf"
    and prev: "0 < k \<longrightarrow> absoluteTime = Fin (of_nat (stamp view (k - 1)))"
  shows "encode_body (Fin (of_nat (stamp view 0))) (encodable (decoded view k)) k absoluteTime buf =
           Inr (Fin (of_nat (stamp view k)),
                take (20 * k) buf @ take 20 (drop (20 * k) view) @ drop 20 (drop (20 * k) buf))"
proof -
  define abs' where "abs' = (if k = 0 then Fin (of_nat (stamp view 0))
     else js_rem (js_add absoluteTime
            (Math_max (Fin 0) (toUint32 (delay (encodable (decoded view k)))))) UINT32_MAX)"
  have ab: "abs' = Fin (of_nat (word_at view (20 * k + 12)))"
  proof (cases "k = 0")
    case True
    then show ?thesis by (simp add: abs'_def stamp_def)
  next
    case False
    then have k: "0 < k" by simp
    with prev have "absoluteTime = Fin (of_nat (stamp view (k - 1)))" by simp
    then show ?thesis
      using False next_stamp [OF k, of view]
      by (simp add: abs'_def encodable_def decoded_def) (simp add: stamp_def)
  qed
  have c: "k * 20 = 20 * k" by simp
  let ?o = "20 * k"
  have w0: "nat_to_le 4 (js_ToUint32 (toUint32 (Fin (of_nat (word_at view ?o)))))
      = take 4 (drop ?o view)"
    using len by (intro written_word) simp
  have w1: "nat_to_le 4 (js_ToUint32 (toUint32 (Fin (of_nat (word_at view (?o + 4))))))
      = take 4 (drop (?o + 4) view)"
    using len by (intro written_word) simp
  have w2: "nat_to_le 4 (js_ToUint32 (toUint32 (Fin (of_nat (word_at view (?o + 8))))))
      = take 4 (drop (?o + 8) view)"
    using len by (intro written_word) simp
  have w3: "nat_to_le 4 (js_ToUint32 (Fin (of_nat (word_at view (?o + 12)))))
      = take 4 (drop (?o + 12) view)"
    using len by (intro written_stamp) simp
  have w4: "nat_to_le 4 (js_ToUint32 (toUint32 (Fin (of_nat (word_at view (?o + 16))))))
      = take 4 (drop (?o + 16) view)"
    using len by (intro written_word) simp
  have f: "message (encodable (decoded view k)) = Fin (of_nat (word_at view ?o))"
    "paramL (encodable (decoded view k)) = Fin (of_nat (word_at view (?o + 4)))"
    "paramH (encodable (decoded view k)) = Fin (of_nat (word_at view (?o + 8)))"
    "hwnd (encodable (decoded view k)) = Fin (of_nat (word_at view (?o + 16)))"
    by (simp_all add: encodable_def decoded_def)
  have split: "buf = take ?o buf @ drop ?o buf" by simp
  have post: "20 \<le> length (drop ?o buf)" using buf by simp
  have off: "?o = length (take ?o buf)" using buf by simp
  note five = write_five [OF post off, of "toUint32 (Fin (of_nat (word_at view ?o)))"
      "toUint32 (Fin (of_nat (word_at view (?o + 4))))"
      "toUint32 (Fin (of_nat (word_at view (?o + 8))))" abs'
      "toUint32 (Fin (of_nat (word_at view (?o + 16))))" abs']
  show ?thesis
    unfolding encode_body_def Let_def abs'_def [symmetric] RECORD_BYTE_LENGTH_def UINT32_SIZE_def c f
    using five unfolding split [symmetric] w0 w1 w2 w4 unfolding ab w3
    by (simp add: stamp_def take_20_split [of ?o view, symmetric])
qed

lemma encode_loop_decoded:
  assumes "k \<le> n" and "20 * n \<le> length view" and "length buf = 20 * n"
    and "0 < k \<longrightarrow> absoluteTime = Fin (of_nat (stamp view (k - 1)))"
    and "take (20 * k) buf = take (20 * k) view"
  shows "encode_loop (Fin (of_nat (stamp view 0))) (map (\<lambda>i. encodable (decoded view i)) [k..<n])
            k absoluteTime buf = Inr (take (20 * n) view)"
  using assms
proof (induction "n - k" arbitrary: k absoluteTime buf)
  case 0
  then have "k = n" by simp
  with 0 show ?case by simp
next
  case (Suc d)
  then have kn: "k < n" by simp
  then have len: "20 * Suc k \<le> length view" and blen: "20 * Suc k \<le> length buf"
    using Suc.prems(2,3) by simp_all
  let ?buf' = "take (20 * k) buf @ take 20 (drop (20 * k) view) @ drop 20 (drop (20 * k) buf)"
  note body = encode_body_decoded [OF len blen Suc.prems(4)]
  have d: "d = n - Suc k" using Suc.hyps(2) by simp
  have l: "length ?buf' = 20 * n" using len blen Suc.prems(3) by simp
  have "take (20 * Suc k) ?buf' = take (20 * k) view @ take 20 (drop (20 * k) view)"
    using len blen by (simp add: Suc.prems(5))
  also have "\<dots> = take (20 * Suc k) view"
    using take_add [of "20 * k" 20 view] by (simp add: add.commute)
  finally have p: "take (20 * Suc k) ?buf' = take (20 * Suc k) view" .
  have "encode_loop (Fin (of_nat (stamp view 0))) (map (\<lambda>i. encodable (decoded view i)) [Suc k..<n])
            (Suc k) (Fin (of_nat (stamp view k))) ?buf' = Inr (take (20 * n) view)"
    using kn by (intro Suc.hyps(1) [OF d _ Suc.prems(2) l _ p]) simp_all
  then show ?case
    using kn body by (simp add: upt_conv_Cons)
qed

lemma parseRec_decoded:
  assumes len: "length b = 20 * n" and n: "0 < n"
  shows "\<exists>hw. parseRec b =
           Inr \<lparr>ParseResult.events = map (decoded b) [0..<n],
                ParseResult.baseTime = Fin (of_nat (stamp b 0)), hwnds = hw,
                duration = time (decoded b (n - 1))\<rparr>"
proof -
  from parse_loop_decoded [of 0 n b "Fin 0" "[]" "Fin 0"] len n
  obtain hw' prev' where
    pl: "parse_loop b n 0 ([], [], Fin 0, Fin 0) =
          Inr (map (decoded b) [0..<n], hw', prev', Fin (of_nat (stamp b 0)))"
    by auto
  have ne: "b \<noteq> []" using len n by auto
  have m: "length b mod 20 = 0" and d: "length b div 20 = n" using len by simp_all
  have l: "last (map (decoded b) [0..<n]) = decoded b (n - 1)"
    using n by (simp add: last_map)
  have "parseRec b =
      Inr \<lparr>ParseResult.events = map (decoded b) [0..<n],
           ParseResult.baseTime = Fin (of_nat (stamp b 0)), hwnds = hw',
           duration = time (decoded b (n - 1))\<rparr>"
    using ne m n pl l unfolding parseRec_def RECORD_BYTE_LENGTH_def d Let_def by simp
  then show ?thesis by blast
qed

text \<open>
  Claim C1.  For every byte buffer whose length is a multiple of 20, decoding succeeds, and
  encoding the decoded events with the decoded \<open>baseTime\<close> gives back the buffer, byte for
  byte.
\<close>

theorem roundtrip_encode_decode:
  assumes "length b mod RECORD_BYTE_LENGTH = 0"
  shows "\<exists>r. parseRec b = Inr r \<and>
           encodeRec (cloneAsEncodable (ParseResult.events r)) (Some (ParseResult.baseTime r)) = Inr b"
proof (cases "b = []")
  case True
  then show ?thesis by (simp add: parseRec_def encodeRec_def cloneAsEncodable_def)
next
  case False
  define n where "n = length b div 20"
  from assms have len: "length b = 20 * n" by (auto simp: n_def RECORD_BYTE_LENGTH_def)
  with False have n: "0 < n" by (cases n) simp_all
  from parseRec_decoded [OF len n] obtain hw where
    p: "parseRec b =
          Inr \<lparr>ParseResult.events = map (decoded b) [0..<n],
               ParseResult.baseTime = Fin (of_nat (stamp b 0)), hwnds = hw,
               duration = time (decoded b (n - 1))\<rparr>"
    by blast
  have c: "cloneAsEncodable (map (decoded b) [0..<n]) = map (\<lambda>i. encodable (decoded b i)) [0..<n]"
    by (simp add: cloneAsEncodable_def encodable_def)
  have s: "stamp b 0 mod 4294967296 = stamp b 0"
    using word_at_bound [of b 12] by (simp add: stamp_def)
  have "encode_loop (Fin (of_nat (stamp b 0))) (map (\<lambda>i. encodable (decoded b i)) [0..<n]) 0
          (Fin (of_nat (stamp b 0))) (replicate (n * 20) 0) = Inr (take (20 * n) b)"
    using len by (intro encode_loop_decoded) simp_all
  then have "encodeRec (cloneAsEncodable (map (decoded b) [0..<n])) (Some (Fin (of_nat (stamp b 0))))
      = Inr b"
    using n len by (simp add: encodeRec_def c toUint32_of_nat s RECORD_BYTE_LENGTH_def)
  with p show ?thesis by simp
qed

theorem roundtrip_encode_decode_witness:
  "length ([0, 2, 0, 0, 7, 0, 0, 0, 9, 0, 0, 0, 240, 255, 255, 255, 1, 0, 0, 0,
            1, 2, 0, 0, 0, 0, 0, 0, 0, 0, 0, 0, 16, 0, 0, 0, 1, 0, 0, 0] :: u8 list)
     mod RECORD_BYTE_LENGTH = 0 \<and>
   (\<exists>r. parseRec [0, 2, 0, 0, 7, 0, 0, 0, 9, 0, 0, 0, 240, 255, 255, 255, 1, 0, 0, 0,
                  1, 2, 0, 0, 0, 0, 0, 0, 0, 0, 0, 0, 16, 0, 0, 0, 1, 0, 0, 0] = Inr r \<and>
        encodeRec (cloneAsEncodable (ParseResult.events r)) (Some (ParseResult.baseTime r)) =
          Inr [0, 2, 0, 0, 7, 0, 0, 0, 9, 0, 0, 0, 240, 255, 255, 255, 1, 0, 0, 0,
               1, 2, 0, 0, 0, 0, 0, 0, 0, 0, 0, 0, 16, 0, 0, 0, 1, 0, 0, 0])"
proof -
  have h: "length ([0, 2, 0, 0, 7, 0, 0, 0, 9, 0, 0, 0, 240, 255, 255, 255, 1, 0, 0, 0,
            1, 2, 0, 0, 0, 0, 0, 0, 0, 0, 0, 0, 16, 0, 0, 0, 1, 0, 0, 0] :: u8 list)
     mod RECORD_BYTE_LENGTH = 0"
    by (simp add: RECORD_BYTE_LENGTH_def)
  from h roundtrip_encode_decode [OF h] show ?thesis by (rule conjI)
qed

text \<open>
  Claim C9.  A buffer whose length is not a multiple of 20 is rejected with the error whose
  message names that length, and nothing is returned beside the error; the empty buffer
  decodes to no events, with \<open>baseTime\<close> 0.
\<close>

theorem parseRec_length_check:
  "(length b mod RECORD_BYTE_LENGTH \<noteq> 0 \<longrightarrow>
      parseRec b = Inl (Error (''Unexpected .rec size: '' @ show_nat (length b)
                                 @ '' bytes is not a multiple of 20.''))) \<and>
   parseRec [] = Inr \<lparr>ParseResult.events = [], ParseResult.baseTime = Fin 0, hwnds = [],
                      duration = Fin 0\<rparr>"
proof -
  have "show_nat 20 = ''20''" by code_simp
  then show ?thesis
    by (auto simp: parseRec_def size_message_def RECORD_BYTE_LENGTH_def)
qed

theorem parseRec_length_check_witness:
  "length ([1, 2, 3] :: u8 list) mod RECORD_BYTE_LENGTH \<noteq> 0 \<and>
   parseRec [1, 2, 3] = Inl (Error ''Unexpected .rec size: 3 bytes is not a multiple of 20.'')"
proof -
  have h: "length ([1, 2, 3] :: u8 list) mod RECORD_BYTE_LENGTH \<noteq> 0"
    by (simp add: RECORD_BYTE_LENGTH_def)
  have n: "show_nat (length ([1, 2, 3] :: u8 list)) = ''3''" by code_simp
  from parseRec_length_check [of "[1, 2, 3]"] h
  have "parseRec [1, 2, 3] = Inl (Error (''Unexpected .rec size: '' @ show_nat (length ([1, 2, 3] :: u8 list))
                                 @ '' bytes is not a multiple of 20.''))"
    by blast
  then have "parseRec [1, 2, 3] = Inl (Error ''Unexpected .rec size: 3 bytes is not a multiple of 20.'')"
    unfolding n by simp
  with h show ?thesis by blast
qed

text \<open>
  \<open>toUint32\<close> maps every number into the range \<open>0 .. 2^32 - 1\<close>: a finite value is
  truncated and reduced modulo \<open>2^32\<close>, anything else becomes 0.  The result is therefore
  never negative, and the \<open>Math.max(0, ...)\<close> around it in \<open>encodeRec\<close> never changes it.
\<close>

lemma js_rem_of_int:
  "js_rem (Fin (of_int n)) UINT32_MAX =
     Fin (of_int (if 0 \<le> n then n mod 4294967296 else - ((- n) mod 4294967296)))"
proof (cases "0 \<le> n")
  case True
  have "\<lfloor>(of_int n :: real) / 4294967296\<rfloor> = n div 4294967296"
    using floor_divide_of_int_eq [of n 4294967296, where ?'a = real] by simp
  moreover have "n - 4294967296 * (n div 4294967296) = n mod 4294967296"
    by (simp add: minus_mult_div_eq_mod)
  ultimately show ?thesis
    using True by (simp add: UINT32_MAX_def trunc_num_def flip: of_int_mult of_int_diff)
next
  case False
  have "\<lceil>(of_int n :: real) / 4294967296\<rceil> = - ((- n) div 4294967296)"
    using floor_divide_of_int_eq [of "- n" 4294967296, where ?'a = real]
    by (simp add: ceiling_def)
  moreover have "n - 4294967296 * (- ((- n) div 4294967296)) = - ((- n) mod 4294967296)"
    using minus_mult_div_eq_mod [of "- n" 4294967296] by simp
  ultimately show ?thesis
    using False by (simp add: UINT32_MAX_def trunc_num_def flip: of_int_mult of_int_diff of_int_minus)
qed

lemma toUint32_Fin: "toUint32 (Fin x) = Fin (of_int (trunc_num x mod 4294967296))"
proof -
  define n where "n = trunc_num x"
  define m where "m = (if 0 \<le> n then n mod 4294967296 else - ((- n) mod 4294967296))"
  have m: "0 \<le> m + 4294967296" "(m + 4294967296) mod 4294967296 = n mod 4294967296"
  proof -
    show "0 \<le> m + 4294967296"
      unfolding m_def using pos_mod_bound [of 4294967296 "- n"] pos_mod_sign [of 4294967296 n]
      by auto
    show "(m + 4294967296) mod 4294967296 = n mod 4294967296"
      unfolding m_def by (simp add: mod_minus_eq)
  qed
  have "toUint32 (Fin x) = js_rem (js_add (js_rem (Fin (of_int n)) UINT32_MAX) UINT32_MAX) UINT32_MAX"
    by (simp add: toUint32_def isFinite_def n_def)
  also have "js_rem (Fin (of_int n)) UINT32_MAX = Fin (of_int m)"
    unfolding m_def by (rule js_rem_of_int)
  also have "js_add (Fin (of_int m)) UINT32_MAX = Fin (of_int (m + 4294967296))"
    by (simp add: UINT32_MAX_def)
  also have "js_rem (Fin (of_int (m + 4294967296))) UINT32_MAX = Fin (of_int ((m + 4294967296) mod 4294967296))"
    using js_rem_of_int [of "m + 4294967296"] m(1) by (simp del: of_int_add)
  finally show ?thesis unfolding m(2) n_def .
qed

lemma toUint32_range: "\<exists>k. toUint32 v = Fin (of_int k) \<and> 0 \<le> k \<and> k < 4294967296"
proof (cases v)
  case (Fin x)
  then show ?thesis
    by (intro exI [of _ "trunc_num x mod 4294967296"]) (simp add: toUint32_Fin)
qed (auto simp: toUint32_def isFinite_def intro: exI [of _ 0])

lemma increment_guard_idle: "Math_max (Fin 0) (toUint32 v) = toUint32 v"
proof -
  obtain k where "toUint32 v = Fin (of_int k)" "0 \<le> k"
    using toUint32_range by blast
  then show ?thesis by (simp add: Math_max_def)
qed

text \<open>
  Claim C2.  \<open>encodeRec\<close> adds \<open>Math.max(0, toUint32(delay))\<close> to the running timestamp,
  and \<open>toUint32\<close> has already wrapped a negative delay into the unsigned range when the
  maximum is taken: after the timestamp 100, the delay \<open>-5\<close> writes 95, not 100.
\<close>

theorem encodeRec_negative_delay:
  "encodeRec
     [\<lparr>message = Fin 512, paramL = Fin 0, paramH = Fin 0, hwnd = Fin 0, delay = Fin 0\<rparr>,
      \<lparr>message = Fin 512, paramL = Fin 0, paramH = Fin 0, hwnd = Fin 0, delay = Fin (- 5)\<rparr>]
     (Some (Fin 100)) =
   Inr [0, 2, 0, 0, 0, 0, 0, 0, 0, 0, 0, 0, 100, 0, 0, 0, 0, 0, 0, 0,
        0, 2, 0, 0, 0, 0, 0, 0, 0, 0, 0, 0, 95, 0, 0, 0, 0, 0, 0, 0]"
  by code_simp

section \<open>Properties of the store\<close>

subsection \<open>Sanitising and normalising\<close>

lemma sanitizeDelay_cases:
  "sanitizeDelay v =
     (case v of Fin x \<Rightarrow> if x < 0 then Fin 0
                         else if \<lfloor>x + 1 / 2\<rfloor> \<le> 4294967295 then Fin (of_int \<lfloor>x + 1 / 2\<rfloor>)
                         else Fin 4294967295
      | NaN \<Rightarrow> Fin 0 | PosInf \<Rightarrow> Fin 0 | NegInf \<Rightarrow> Fin 0)"
proof (cases v)
  case (Fin x)
  have "(4294967295 < (of_int \<lfloor>x + 1 / 2\<rfloor> :: real)) = (4294967295 < \<lfloor>x + 1 / 2\<rfloor>)"
    using of_int_less_iff [of 4294967295 "\<lfloor>x + 1 / 2\<rfloor>", where ?'a = real] by simp
  then show ?thesis
    using Fin by (auto simp: sanitizeDelay_def isFinite_def Math_min_def js_sub_def UINT32_MAX_def)
qed (simp_all add: sanitizeDelay_def isFinite_def)

lemma sanitizeDelay_range: "\<exists>k. sanitizeDelay v = Fin (of_int k) \<and> 0 \<le> k \<and> k \<le> 4294967295"
proof (cases v)
  case (Fin x)
  show ?thesis
  proof (cases "x < 0")
    case True
    with Fin have "sanitizeDelay v = Fin (of_int 0)" by (simp add: sanitizeDelay_cases)
    then show ?thesis by (intro exI [of _ 0]) simp
  next
    case False
    then have f: "0 \<le> \<lfloor>x + 1 / 2\<rfloor>" by simp
    show ?thesis
    proof (cases "\<lfloor>x + 1 / 2\<rfloor> \<le> 4294967295")
      case True
      with Fin False f show ?thesis
        by (intro exI [of _ "\<lfloor>x + 1 / 2\<rfloor>"]) (simp add: sanitizeDelay_cases)
    next
      case F2: False
      with Fin False have "sanitizeDelay v = Fin (of_int 4294967295)" by (simp add: sanitizeDelay_cases)
      then show ?thesis by (intro exI [of _ 4294967295]) simp
    qed
  qed
next
  case NaN
  then have "sanitizeDelay v = Fin (of_int 0)" by (simp add: sanitizeDelay_cases)
  then show ?thesis by (intro exI [of _ 0]) simp
next
  case PosInf
  then have "sanitizeDelay v = Fin (of_int 0)" by (simp add: sanitizeDelay_cases)
  then show ?thesis by (intro exI [of _ 0]) simp
next
  case NegInf
  then have "sanitizeDelay v = Fin (of_int 0)" by (simp add: sanitizeDelay_cases)
  then show ?thesis by (intro exI [of _ 0]) simp
qed

lemma sanitizeDelay_of_int:
  assumes "0 \<le> k" and "k \<le> 4294967295"
  shows "sanitizeDelay (Fin (of_int k)) = Fin (of_int k)"
proof -
  have "\<lfloor>(of_int k :: real) + 1 / 2\<rfloor> = k" by linarith
  with assms show ?thesis by (simp add: sanitizeDelay_cases)
qed

lemma sanitizeDelay_idem: "sanitizeDelay (sanitizeDelay v) = sanitizeDelay v"
proof -
  obtain k where "sanitizeDelay v = Fin (of_int k)" "0 \<le> k" "k \<le> 4294967295"
    using sanitizeDelay_range by blast
  then show ?thesis by (simp add: sanitizeDelay_of_int)
qed

lemma sanitizeDelay_not_NaN [simp]: "sanitizeDelay v \<noteq> NaN"
  using sanitizeDelay_range [of v] by auto

lemma recompute_from_idem:
  "recompute_from index elapsed (recompute_from index elapsed evs) = recompute_from index elapsed evs"
proof (induction evs arbitrary: index elapsed)
  case Nil
  show ?case by simp
next
  case (Cons event rest)
  show ?case
    by (simp add: Let_def sanitizeDelay_idem Cons.IH)
qed

lemma recomputeTimeline_idem: "recomputeTimeline (recomputeTimeline evs) = recomputeTimeline evs"
  by (simp add: recomputeTimeline_def recompute_from_idem)

lemma length_recompute_from [simp]: "length (recompute_from index elapsed evs) = length evs"
  by (induction evs arbitrary: index elapsed) (simp_all add: Let_def)

lemma length_recomputeTimeline [simp]: "length (recomputeTimeline evs) = length evs"
  by (simp add: recomputeTimeline_def)

lemma eid_recompute_from [simp]: "map eid (recompute_from index elapsed evs) = map eid evs"
  by (induction evs arbitrary: index elapsed) (simp_all add: Let_def)

lemma eid_recomputeTimeline [simp]: "map eid (recomputeTimeline evs) = map eid evs"
  by (simp add: recomputeTimeline_def)

lemma eid_set_recomputeTimeline [simp]: "eid ` set (recomputeTimeline evs) = eid ` set evs"
proof -
  have "set (map eid (recomputeTimeline evs)) = set (map eid evs)" by simp
  then show ?thesis by (simp only: set_map)
qed

lemma chain_recompute_from:
  "0 < index \<Longrightarrow> chain a (recompute_from index (Fin a) evs)"
proof (induction evs arbitrary: index a)
  case Nil
  show ?case by simp
next
  case (Cons event rest)
  obtain k where k: "sanitizeDelay (delay event) = Fin (of_int k)" "0 \<le> k"
    using sanitizeDelay_range by blast
  from Cons.prems Cons.IH [of "index + 1" "a + of_int k"] k show ?case
    by (simp add: Let_def)
qed

lemma chain_nth:
  assumes "chain a ys" and "time e = Fin a" and "i \<in> {1..<length (e # ys)}"
  shows "js_strict_eq (time ((e # ys) ! i)) (js_add (time ((e # ys) ! (i - 1))) (delay ((e # ys) ! i))) \<and>
         js_ge (time ((e # ys) ! i)) (time ((e # ys) ! (i - 1)))"
  using assms
proof (induction ys arbitrary: a e i)
  case Nil
  then show ?case by simp
next
  case (Cons y ys)
  from Cons.prems(1) obtain d where d: "delay y = Fin d" "0 \<le> d" "time y = Fin (a + d)" "chain (a + d) ys"
    by (auto split: jsnum.splits)
  show ?case
  proof (cases "i = 1")
    case True
    with d Cons.prems(2) show ?thesis
      by (simp add: js_strict_eq_def js_ge_def)
  next
    case False
    with Cons.prems(3) have i: "i - 1 \<in> {1..<length (y # ys)}" by auto
    from Cons.IH [OF d(4) d(3) i] i False Cons.prems(3) show ?thesis
      by (simp add: nth_Cons')
  qed
qed

lemma timeline_ok_recomputeTimeline: "timeline_ok (recomputeTimeline evs)"
proof (cases evs)
  case Nil
  then show ?thesis by (simp add: timeline_ok_def recomputeTimeline_def)
next
  case (Cons event rest)
  let ?e = "event\<lparr>delay := Fin 0, time := Fin 0\<rparr>"
  have r: "recomputeTimeline evs = ?e # recompute_from 1 (Fin 0) rest"
    using Cons by (simp add: recomputeTimeline_def)
  have c: "chain 0 (recompute_from 1 (Fin 0) rest)"
    by (rule chain_recompute_from) simp
  let ?L = "?e # recompute_from 1 (Fin 0) rest"
  have first: "js_strict_eq (time (?L ! 0)) (Fin 0) \<and> js_strict_eq (delay (?L ! 0)) (Fin 0)"
    by (simp add: js_strict_eq_def)
  have t: "time ?e = Fin 0" by simp
  have "\<And>i. i \<in> {1..<length ?L} \<Longrightarrow>
      js_strict_eq (time (?L ! i)) (js_add (time (?L ! (i - 1))) (delay (?L ! i))) \<and>
      js_ge (time (?L ! i)) (time (?L ! (i - 1)))"
    by (rule chain_nth [OF c t])
  with first show ?thesis
    unfolding r timeline_ok_def by blast
qed

subsection \<open>What a commit does to each state variable\<close>

lemma commit_events:
  "events (commitEvents m opts s) =
     (case m (events s) of None \<Rightarrow> events s | Some r \<Rightarrow> recomputeTimeline (next_events r))"
  by (simp add: commitEvents_def Let_def split: option.splits)

lemma commit_history:
  "history (commitEvents m opts s) =
     (case m (events s) of None \<Rightarrow> history s
      | Some r \<Rightarrow> if trackHistory opts \<noteq> Some False then push_capped (history s) (events s)
                  else history s)"
  by (simp add: commitEvents_def Let_def split: option.splits)

lemma commit_future:
  "future (commitEvents m opts s) =
     (case m (events s) of None \<Rightarrow> future s
      | Some r \<Rightarrow> if trackHistory opts \<noteq> Some False then [] else future s)"
  by (simp add: commitEvents_def Let_def split: option.splits)

lemma commit_selectedIds:
  "selectedIds (commitEvents m opts s) =
     (case m (events s) of None \<Rightarrow> selectedIds s
      | Some r \<Rightarrow> Set.filter (\<lambda>i. i \<in> set (map eid (next_events r)))
                    (case selectionOverride r of Some override \<Rightarrow> override | None \<Rightarrow> selectedIds s))"
  by (simp add: commitEvents_def Let_def split: option.splits)

lemma commit_other:
  "error (commitEvents m opts s) = error s"
  "loading (commitEvents m opts s) = loading s"
  "initialEvents (commitEvents m opts s) = initialEvents s"
  "baseTime (commitEvents m opts s) = baseTime s"
  "fileName (commitEvents m opts s) = fileName s"
  by (simp_all add: commitEvents_def Let_def split: option.splits)

lemma commit_noop:
  "m (events s) = None \<Longrightarrow> resetAnchor opts \<noteq> Some True \<Longrightarrow> commitEvents m opts s = s"
  by (simp add: commitEvents_def)

lemma set_push_capped: "set (push_capped stack x) \<subseteq> insert x (set stack)"
proof -
  have "set (tl (stack @ [x])) \<subseteq> set (stack @ [x])"
    by (cases "stack @ [x]") auto
  then show ?thesis by (auto simp: push_capped_def Let_def)
qed

lemma invariant_commit:
  assumes "store_invariant s"
  shows "store_invariant (commitEvents m opts s)"
proof -
  have h: "\<forall>x \<in> set (push_capped (history s) (events s)). recomputeTimeline x = x"
    using assms set_push_capped [of "history s" "events s"] by (auto simp: store_invariant_def)
  show ?thesis
    using assms h unfolding store_invariant_def commit_events commit_history commit_future
    by (auto simp: recomputeTimeline_idem split: option.splits)
qed

lemma invariant_field_updates [simp]:
  "store_invariant (s\<lparr>error := e\<rparr>) = store_invariant s"
  "store_invariant (s\<lparr>loading := l\<rparr>) = store_invariant s"
  "store_invariant (s\<lparr>selectedIds := ids\<rparr>) = store_invariant s"
  "store_invariant (s\<lparr>selectionAnchor := an\<rparr>) = store_invariant s"
  by (simp_all add: store_invariant_def)

lemma invariant_undo: "store_invariant s \<Longrightarrow> store_invariant (undo s)"
proof -
  assume a: "store_invariant s"
  have f: "\<forall>x \<in> set (push_capped (future s) (events s)). recomputeTimeline x = x"
    using a set_push_capped [of "future s" "events s"] by (auto simp: store_invariant_def)
  have b: "set (butlast (history s)) \<subseteq> set (history s)"
    by (auto dest: in_set_butlastD)
  show ?thesis
    using a f b by (auto simp: undo_def store_invariant_def Let_def recomputeTimeline_idem)
qed

lemma invariant_redo: "store_invariant s \<Longrightarrow> store_invariant (redo s)"
proof -
  assume a: "store_invariant s"
  have f: "\<forall>x \<in> set (push_capped (history s) (events s)). recomputeTimeline x = x"
    using a set_push_capped [of "history s" "events s"] by (auto simp: store_invariant_def)
  have b: "set (butlast (future s)) \<subseteq> set (future s)"
    by (auto dest: in_set_butlastD)
  show ?thesis
    using a f b by (auto simp: redo_def store_invariant_def Let_def recomputeTimeline_idem)
qed

lemma invariant_perform: "store_invariant s \<Longrightarrow> store_invariant (perform render a s)"
proof (cases a)
  case (LoadFile name bytes)
  assume "store_invariant s"
  then show ?thesis
    using LoadFile
    by (auto simp: loadFile_def store_invariant_def Let_def recomputeTimeline_idem split: sum.splits)
next
  case (MergeFile clock random bytes)
  assume "store_invariant s"
  then show ?thesis
    using MergeFile by (auto simp: mergeFile_def insertEvents_def Let_def invariant_commit split: sum.splits)
next
  case ResetChanges
  assume "store_invariant s"
  then show ?thesis
    using ResetChanges by (auto simp: resetChanges_def store_invariant_def Let_def recomputeTimeline_idem)
next
  case (ToggleSelection i index shift meta)
  assume "store_invariant s"
  then show ?thesis
    using ToggleSelection by (simp add: toggleSelection_def Let_def)
qed (simp_all add: updateDelay_def removeEvent_def insertEvents_def selectAll_def clearSelection_def
      applyDelayToSelection_def addDelayToSelection_def clampSmallDelays_def applyToSelection_def
      deleteSelected_def invariant_commit invariant_undo invariant_redo Let_def)

lemma invariant_initial: "store_invariant initial_state"
  by (simp add: store_invariant_def initial_state_def recomputeTimeline_def)

lemma reachable_invariant: "reachable render s \<Longrightarrow> store_invariant s"
  by (induction rule: reachable.induct) (simp_all add: invariant_initial invariant_perform)

lemma commit_routes:
  "events (commitEvents m opts s) = events s \<or> (\<exists>xs. events (commitEvents m opts s) = recomputeTimeline xs)"
  unfolding commit_events by (cases "m (events s)") auto

lemma perform_routes:
  "events (perform render a s) = events s \<or> (\<exists>xs. events (perform render a s) = recomputeTimeline xs)"
proof (cases a)
  case (LoadFile name bytes)
  then show ?thesis by (auto simp: loadFile_def Let_def split: sum.splits)
next
  case (MergeFile clock random bytes)
  show ?thesis
  proof (cases "parseRec bytes")
    case (Inl err)
    with MergeFile show ?thesis by (simp add: mergeFile_def)
  next
    case (Inr parsed)
    with MergeFile commit_routes [of "insertEvents_mutation render clock random (int (length (events s)))
         (map as_template (createEditorEvents render (ParseResult.events parsed))) (Fin 0)" no_options
         "s\<lparr>error := None, loading := True\<rparr>"]
    show ?thesis by (simp add: mergeFile_def insertEvents_def Let_def)
  qed
next
  case ResetChanges
  then show ?thesis by (auto simp: resetChanges_def Let_def)
next
  case (ToggleSelection i index shift meta)
  then show ?thesis by (simp add: toggleSelection_def Let_def)
next
  case Undo
  then show ?thesis by (auto simp: undo_def Let_def)
next
  case Redo
  then show ?thesis by (auto simp: redo_def Let_def)
qed (simp_all add: updateDelay_def removeEvent_def insertEvents_def selectAll_def clearSelection_def
      applyDelayToSelection_def addDelayToSelection_def clampSmallDelays_def applyToSelection_def
      deleteSelected_def commit_routes Let_def)


subsection \<open>Undo and redo\<close>

lemma push_capped_snoc:
  "\<exists>stack'. push_capped stack x = stack' @ [x] \<and> (stack' = stack \<or> (stack \<noteq> [] \<and> stack' = tl stack))"
proof (cases "length (stack @ [x]) > HISTORY_LIMIT")
  case False
  then show ?thesis by (simp add: push_capped_def)
next
  case True
  then have "stack \<noteq> []" by (auto simp: HISTORY_LIMIT_def)
  then have "tl (stack @ [x]) = tl stack @ [x]" by simp
  with True \<open>stack \<noteq> []\<close> show ?thesis by (simp add: push_capped_def)
qed

lemma push_capped_small:
  "length stack < HISTORY_LIMIT \<Longrightarrow> push_capped stack x = stack @ [x]"
  by (simp add: push_capped_def)

lemma mutates_perform:
  assumes "mutates render a s"
  shows "(\<exists>xs. events (perform render a s) = recomputeTimeline xs) \<and>
         history (perform render a s) = push_capped (history s) (events s) \<and>
         future (perform render a s) = []"
proof (cases a)
  case (MergeFile clock random bytes)
  with assms obtain parsed where p: "parseRec bytes = Inr parsed"
    by (auto split: sum.splits)
  show ?thesis
    using MergeFile p
    by (auto simp: mergeFile_def insertEvents_def Let_def commit_events commit_history commit_future
        insertEvents_mutation_def no_options_def)
next
  case (UpdateDelay i v)
  with assms show ?thesis
    by (auto simp: updateDelay_def Let_def commit_events commit_history commit_future no_options_def)
next
  case (RemoveEvent i)
  with assms show ?thesis
    by (auto simp: removeEvent_def commit_events commit_history commit_future no_options_def)
next
  case (InsertEvents clock random index newEvents delayTotal)
  then show ?thesis
    by (auto simp: insertEvents_def commit_events commit_history commit_future no_options_def
        insertEvents_mutation_def Let_def)
next
  case (ApplyDelayToSelection v)
  with assms show ?thesis
    by (auto simp: applyDelayToSelection_def applyToSelection_def commit_events commit_history
        commit_future no_options_def)
next
  case (AddDelayToSelection delta)
  with assms show ?thesis
    by (auto simp: addDelayToSelection_def applyToSelection_def commit_events commit_history
        commit_future no_options_def)
next
  case (ClampSmallDelays threshold)
  with assms show ?thesis
    by (auto simp: clampSmallDelays_def applyToSelection_def commit_events commit_history
        commit_future no_options_def)
next
  case DeleteSelected
  with assms show ?thesis
    by (auto simp: deleteSelected_def commit_events commit_history commit_future)
qed (use assms in simp_all)

lemma run_snoc: "run render (acts @ [a]) s = perform render a (run render acts s)"
  by (simp add: run_def)

lemma run_Cons: "run render (a # acts) s = run render acts (perform render a s)"
  by (simp add: run_def)

lemma all_mutate_snoc:
  "all_mutate render (acts @ [a]) s =
     (all_mutate render acts s \<and> mutates render a (run render acts s))"
  by (induction acts arbitrary: s) (simp_all add: run_def)

lemma run_history:
  assumes "all_mutate render acts s" and "length acts \<le> HISTORY_LIMIT"
  shows "\<exists>h snaps. history (run render acts s) = h @ snaps \<and> length snaps = length acts \<and>
           (snaps @ [events (run render acts s)]) ! 0 = events s \<and>
           (\<forall>x \<in> set (tl (snaps @ [events (run render acts s)])). recomputeTimeline x = x) \<and>
           (acts \<noteq> [] \<longrightarrow> future (run render acts s) = [])"
  using assms
proof (induction acts rule: rev_induct)
  case Nil
  show ?case by (simp add: run_def)
next
  case (snoc a acts)
  let ?t = "run render acts s"
  let ?t' = "perform render a ?t"
  from snoc.prems have am: "all_mutate render acts s" and m: "mutates render a ?t"
    and len: "length acts < HISTORY_LIMIT"
    by (simp_all add: all_mutate_snoc)
  from snoc.IH [OF am] len obtain h snaps where
    h: "history ?t = h @ snaps" and l: "length snaps = length acts"
    and first: "(snaps @ [events ?t]) ! 0 = events s"
    and norm: "\<forall>x \<in> set (tl (snaps @ [events ?t])). recomputeTimeline x = x"
    by auto
  from mutates_perform [OF m] obtain xs where
    e: "events ?t' = recomputeTimeline xs"
    and hist: "history ?t' = push_capped (history ?t) (events ?t)"
    and fut: "future ?t' = []"
    by blast
  have "\<exists>h'. push_capped (h @ snaps) (events ?t) = h' @ (snaps @ [events ?t])"
  proof (cases "length ((h @ snaps) @ [events ?t]) > HISTORY_LIMIT")
    case False
    then have "push_capped (h @ snaps) (events ?t) = h @ (snaps @ [events ?t])"
      by (simp add: push_capped_def)
    then show ?thesis by blast
  next
    case True
    with l len have "h \<noteq> []" by auto
    then have "tl ((h @ snaps) @ [events ?t]) = tl h @ (snaps @ [events ?t])" by simp
    with True have "push_capped (h @ snaps) (events ?t) = tl h @ (snaps @ [events ?t])"
      by (simp add: push_capped_def)
    then show ?thesis by blast
  qed
  then obtain h' where "push_capped (h @ snaps) (events ?t) = h' @ (snaps @ [events ?t])" by blast
  then have hist': "history ?t' = h' @ (snaps @ [events ?t])"
    using hist h by simp
  have "((snaps @ [events ?t]) @ [events ?t']) ! 0 = (snaps @ [events ?t]) ! 0"
    by (cases snaps) simp_all
  with first have first': "((snaps @ [events ?t]) @ [events ?t']) ! 0 = events s"
    by simp
  have "set (tl ((snaps @ [events ?t]) @ [events ?t'])) =
      insert (events ?t') (set (tl (snaps @ [events ?t])))"
    by (cases snaps) auto
  then have norm': "\<forall>x \<in> set (tl ((snaps @ [events ?t]) @ [events ?t'])). recomputeTimeline x = x"
    using norm e by (simp add: recomputeTimeline_idem)
  show ?case
    unfolding run_snoc
    using hist' l first' norm' fut
    by (intro exI [of _ h'] exI [of _ "snaps @ [events ?t]"]) simp
qed

lemma undo_step:
  assumes "history t = hs @ [x]" and "length (future t) < HISTORY_LIMIT"
  shows "history (undo t) = hs \<and> events (undo t) = recomputeTimeline x \<and>
         future (undo t) = future t @ [events t]"
  using assms by (simp add: undo_def Let_def push_capped_small)

lemma redo_step:
  assumes "future t = fs @ [x]"
  shows "future (redo t) = fs \<and> events (redo t) = recomputeTimeline x"
  using assms by (simp add: redo_def Let_def)

lemma undo_many:
  assumes "history t = h @ snaps" and "\<forall>x \<in> set snaps. recomputeTimeline x = x"
    and "length (future t) + length snaps \<le> HISTORY_LIMIT"
  shows "history ((undo ^^ length snaps) t) = h \<and>
         events ((undo ^^ length snaps) t) = hd (snaps @ [events t]) \<and>
         future ((undo ^^ length snaps) t) = future t @ rev (tl (snaps @ [events t]))"
  using assms
proof (induction snaps arbitrary: t rule: rev_induct)
  case Nil
  then show ?case by simp
next
  case (snoc y ys)
  have hist: "history t = (h @ ys) @ [y]" using snoc.prems(1) by simp
  have fl: "length (future t) < HISTORY_LIMIT" using snoc.prems(3) by simp
  from undo_step [OF hist fl] snoc.prems(2)
  have u: "history (undo t) = h @ ys" "events (undo t) = y" "future (undo t) = future t @ [events t]"
    by simp_all
  have n: "\<forall>x \<in> set ys. recomputeTimeline x = x" using snoc.prems(2) by simp
  have l: "length (future (undo t)) + length ys \<le> HISTORY_LIMIT"
    using snoc.prems(3) u(3) by simp
  note ih = snoc.IH [OF u(1) n l]
  have f: "(undo ^^ length (ys @ [y])) t = (undo ^^ length ys) (undo t)"
    by (simp add: funpow_swap1)
  have hd: "hd ((ys @ [y]) @ [events t]) = hd (ys @ [y])"
    by (cases ys) simp_all
  have tl: "rev (tl ((ys @ [y]) @ [events t])) = events t # rev (tl (ys @ [y]))"
    by (cases ys) simp_all
  show ?case
    unfolding f hd tl using ih u by simp
qed

lemma redo_many:
  assumes "future t = f @ rev R" and "\<forall>x \<in> set R. recomputeTimeline x = x"
  shows "future ((redo ^^ length R) t) = f \<and> events ((redo ^^ length R) t) = last (events t # R)"
  using assms
proof (induction R arbitrary: t)
  case Nil
  then show ?case by simp
next
  case (Cons r R)
  have fut: "future t = (f @ rev R) @ [r]" using Cons.prems(1) by simp
  from redo_step [OF fut] Cons.prems(2)
  have u: "future (redo t) = f @ rev R" "events (redo t) = r" by simp_all
  have n: "\<forall>x \<in> set R. recomputeTimeline x = x" using Cons.prems(2) by simp
  note ih = Cons.IH [OF u(1) n]
  have f: "(redo ^^ length (r # R)) t = (redo ^^ length R) (redo t)"
    by (simp add: funpow_swap1)
  show ?case
    unfolding f using ih u by simp
qed

lemma undo_redo_run:
  assumes r: "reachable render s" and am: "all_mutate render acts s"
    and len: "length acts \<le> HISTORY_LIMIT"
  shows "events ((undo ^^ length acts) (run render acts s)) = events s \<and>
         events ((redo ^^ length acts) ((undo ^^ length acts) (run render acts s))) =
           events (run render acts s)"
proof (cases "acts = []")
  case True
  then show ?thesis by (simp add: run_def)
next
  case False
  let ?t = "run render acts s"
  from run_history [OF am len] False obtain h snaps where
    h: "history ?t = h @ snaps" and l: "length snaps = length acts"
    and first: "(snaps @ [events ?t]) ! 0 = events s"
    and norm: "\<forall>x \<in> set (tl (snaps @ [events ?t])). recomputeTimeline x = x"
    and fut: "future ?t = []"
    by auto
  from l False have ne: "snaps \<noteq> []" by auto
  then obtain x0 rest where sn: "snaps = x0 # rest" by (cases snaps) auto
  from first sn have x0: "x0 = events s" by simp
  have "recomputeTimeline (events s) = events s"
    using reachable_invariant [OF r] by (simp add: store_invariant_def)
  with norm sn x0 have all: "\<forall>x \<in> set snaps. recomputeTimeline x = x" by auto
  have cap: "length (future ?t) + length snaps \<le> HISTORY_LIMIT" using fut l len by simp
  let ?u = "(undo ^^ length snaps) ?t"
  from undo_many [OF h all cap]
  have u: "events ?u = hd (snaps @ [events ?t])" "future ?u = future ?t @ rev (tl (snaps @ [events ?t]))"
    by simp_all
  have e1: "events ?u = events s" using u(1) sn x0 by simp
  define R where "R = rest @ [events ?t]"
  have f1: "future ?u = [] @ rev R" using u(2) fut sn by (simp add: R_def)
  have n2: "\<forall>x \<in> set R. recomputeTimeline x = x" using norm sn by (simp add: R_def)
  have lr: "length R = length acts" using l sn by (simp add: R_def)
  have "events ((redo ^^ length R) ?u) = last (events ?u # R)"
    using redo_many [OF f1 n2] by simp
  also have "\<dots> = events ?t" by (simp add: R_def)
  finally have e2: "events ((redo ^^ length acts) ?u) = events ?t" unfolding lr .
  from e1 e2 show ?thesis unfolding l by simp
qed

lemma undo_empty: "history t = [] \<Longrightarrow> undo t = t"
  by (simp add: undo_def)


subsection \<open>Fields of a normalised list\<close>

lemma fields_recompute_from [simp]:
  "map message (recompute_from index elapsed evs) = map message evs"
  "map paramL (recompute_from index elapsed evs) = map paramL evs"
  "map paramH (recompute_from index elapsed evs) = map paramH evs"
  "map hwnd (recompute_from index elapsed evs) = map hwnd evs"
  by (induction evs arbitrary: index elapsed) (simp_all add: Let_def)

lemma nth_recomputeTimeline:
  assumes "k < length evs"
  shows "eid (recomputeTimeline evs ! k) = eid (evs ! k)"
    and "message (recomputeTimeline evs ! k) = message (evs ! k)"
    and "paramL (recomputeTimeline evs ! k) = paramL (evs ! k)"
    and "paramH (recomputeTimeline evs ! k) = paramH (evs ! k)"
    and "hwnd (recomputeTimeline evs ! k) = hwnd (evs ! k)"
proof -
  have l: "k < length (recomputeTimeline evs)" using assms by simp
  show "eid (recomputeTimeline evs ! k) = eid (evs ! k)"
    using nth_map [OF l, of eid] nth_map [OF assms, of eid] by simp
  show "message (recomputeTimeline evs ! k) = message (evs ! k)"
    using nth_map [OF l, of message] nth_map [OF assms, of message]
    by (simp add: recomputeTimeline_def)
  show "paramL (recomputeTimeline evs ! k) = paramL (evs ! k)"
    using nth_map [OF l, of paramL] nth_map [OF assms, of paramL]
    by (simp add: recomputeTimeline_def)
  show "paramH (recomputeTimeline evs ! k) = paramH (evs ! k)"
    using nth_map [OF l, of paramH] nth_map [OF assms, of paramH]
    by (simp add: recomputeTimeline_def)
  show "hwnd (recomputeTimeline evs ! k) = hwnd (evs ! k)"
    using nth_map [OF l, of hwnd] nth_map [OF assms, of hwnd]
    by (simp add: recomputeTimeline_def)
qed

lemma delay_recompute_from:
  assumes "k < length evs" and "0 < index + k"
  shows "delay (recompute_from index elapsed evs ! k) = sanitizeDelay (delay (evs ! k))"
  using assms
proof (induction evs arbitrary: index elapsed k)
  case Nil
  then show ?case by simp
next
  case (Cons event rest)
  show ?case
  proof (cases k)
    case 0
    with Cons.prems show ?thesis by (simp add: Let_def)
  next
    case (Suc k')
    with Cons.prems have "k' < length rest" by simp
    from Cons.IH [OF this]
    have ih: "\<And>idx el. 0 < idx \<Longrightarrow>
        delay (recompute_from idx el rest ! k') = sanitizeDelay (delay (rest ! k'))"
      by simp
    from Suc show ?thesis by (simp add: Let_def ih)
  qed
qed

lemma delay_recomputeTimeline:
  "k < length evs \<Longrightarrow> 0 < k \<Longrightarrow> delay (recomputeTimeline evs ! k) = sanitizeDelay (delay (evs ! k))"
  by (simp add: recomputeTimeline_def delay_recompute_from)

lemma delay_recomputeTimeline_first:
  "evs \<noteq> [] \<Longrightarrow> delay (recomputeTimeline evs ! 0) = Fin 0"
  by (cases evs) (simp_all add: recomputeTimeline_def)

lemma recompute_from_append:
  "\<exists>elapsed'. recompute_from index elapsed (xs @ ys) =
      recompute_from index elapsed xs @ recompute_from (index + length xs) elapsed' ys"
proof (induction xs arbitrary: index elapsed)
  case Nil
  show ?case by (intro exI [of _ elapsed]) simp
next
  case (Cons x xs)
  show ?case
  proof (cases "index = 0")
    case True
    from Cons.IH [of "index + 1" "Fin 0"] True show ?thesis by auto
  next
    case False
    from Cons.IH [of "index + 1" "js_add elapsed (sanitizeDelay (delay x))"] False
    show ?thesis by (auto simp: Let_def)
  qed
qed

lemma take_recomputeTimeline_append:
  assumes "recomputeTimeline xs = xs"
  shows "take (length xs) (recomputeTimeline (xs @ ys)) = xs"
proof -
  obtain elapsed' where
    "recompute_from 0 (Fin 0) (xs @ ys) =
       recompute_from 0 (Fin 0) xs @ recompute_from (0 + length xs) elapsed' ys"
    using recompute_from_append by blast
  then have "recomputeTimeline (xs @ ys) = xs @ recompute_from (length xs) elapsed' ys"
    using assms by (simp add: recomputeTimeline_def)
  then show ?thesis by simp
qed

subsection \<open>Setting a delay\<close>

lemma sanitizeDelay_strict_eq: "js_strict_eq d (sanitizeDelay v) = (d = sanitizeDelay v)"
  by (auto simp: js_strict_eq_def)

lemma updateDelay_noop:
  assumes "\<forall>e \<in> set (events s). eid e = i \<longrightarrow> delay e = sanitizeDelay v"
  shows "updateDelay i v s = s"
proof -
  have "updateDelay_mutation i (sanitizeDelay v) (events s) = None"
    using assms by (auto simp: updateDelay_mutation_def Let_def list_ex_iff sanitizeDelay_strict_eq)
  then show ?thesis
    by (simp add: updateDelay_def Let_def commit_noop no_options_def)
qed

lemma updateDelay_events:
  "events (updateDelay i v s) = events s \<and> (\<forall>e \<in> set (events s). eid e = i \<longrightarrow> delay e = sanitizeDelay v) \<or>
   events (updateDelay i v s) =
     recomputeTimeline (map (\<lambda>event. if eid event = i then event\<lparr>delay := sanitizeDelay v\<rparr> else event)
        (events s))"
proof (cases "\<forall>e \<in> set (events s). eid e = i \<longrightarrow> delay e = sanitizeDelay v")
  case True
  then show ?thesis using updateDelay_noop [of s i v] by simp
next
  case False
  then have le: "list_ex (\<lambda>event. eid event = i \<and> \<not> js_strict_eq (delay event) (sanitizeDelay v))
      (events s)"
    by (auto simp: list_ex_iff sanitizeDelay_strict_eq)
  let ?f0 = "\<lambda>event. if eid event \<noteq> i then event
                   else if js_strict_eq (delay event) (sanitizeDelay v) then event
                   else event\<lparr>delay := sanitizeDelay v\<rparr>"
  let ?f1 = "\<lambda>event. if eid event = i then event\<lparr>delay := sanitizeDelay v\<rparr> else event"
  have m: "map ?f0 (events s) = map ?f1 (events s)"
    by (rule map_cong [OF refl]) (auto simp: sanitizeDelay_strict_eq)
  have mut: "updateDelay_mutation i (sanitizeDelay v) (events s) =
      Some \<lparr>next_events = map ?f0 (events s), selectionOverride = None\<rparr>"
    using le by (simp add: updateDelay_mutation_def Let_def)
  have "events (updateDelay i v s) = recomputeTimeline (map ?f0 (events s))"
    by (simp add: updateDelay_def Let_def commit_events mut)
  then have "events (updateDelay i v s) = recomputeTimeline (map ?f1 (events s))"
    unfolding m .
  then show ?thesis by blast
qed

lemma updateDelay_delay:
  assumes "0 < k" and "k < length (events s)" and "eid (events s ! k) = i"
  shows "delay (events (updateDelay i v s) ! k) = sanitizeDelay v"
proof -
  let ?f = "\<lambda>event. if eid event = i then event\<lparr>delay := sanitizeDelay v\<rparr> else event"
  from updateDelay_events [of i v s] show ?thesis
  proof
    assume "events (updateDelay i v s) = events s \<and>
        (\<forall>e \<in> set (events s). eid e = i \<longrightarrow> delay e = sanitizeDelay v)"
    with assms show ?thesis by simp
  next
    assume e: "events (updateDelay i v s) = recomputeTimeline (map ?f (events s))"
    have "delay (recomputeTimeline (map ?f (events s)) ! k) = sanitizeDelay (delay (map ?f (events s) ! k))"
      using assms by (intro delay_recomputeTimeline) simp_all
    with assms e show ?thesis by (simp add: sanitizeDelay_idem)
  qed
qed

lemma updateDelay_ids: "map eid (events (updateDelay i v s)) = map eid (events s)"
  using updateDelay_events [of i v s] by (auto simp: comp_def)

lemma sanitizeDelay_bad: "\<not> isFinite v \<or> js_lt v (Fin 0) \<Longrightarrow> sanitizeDelay v = Fin 0"
  by (auto simp: sanitizeDelay_def)

lemma sanitizeDelay_examples:
  "sanitizeDelay (Fin (- 5)) = Fin 0" "sanitizeDelay (Fin (10 ^ 20)) = Fin (2 ^ 32 - 1)"
  by (simp_all add: sanitizeDelay_cases)


subsection \<open>Decimal digits\<close>

lemma digit_char_cases:
  assumes "d < 10"
  shows "digit_char d \<in> set ''0123456789''"
  unfolding digit_char_def using assms by (intro nth_mem) simp

lemma digit_char_inj:
  assumes "d < 10" and "d' < 10" and "digit_char d = digit_char d'"
  shows "d = d'"
proof -
  have "distinct ''0123456789''" by simp
  moreover have "d < length ''0123456789''" "d' < length ''0123456789''" using assms by simp_all
  ultimately show ?thesis
    using assms(3) unfolding digit_char_def by (simp only: nth_eq_iff_index_eq)
qed

lemma show_nat_digits: "set (show_nat n) \<subseteq> set ''0123456789''"
proof (induction n rule: show_nat.induct)
  case (1 n)
  show ?case
  proof (cases "n < 10")
    case True
    then show ?thesis
      using digit_char_cases [of n] by (subst show_nat.simps) simp
  next
    case False
    have "n mod 10 < 10" by simp
    from digit_char_cases [OF this] 1 [OF False] False show ?thesis
      by (subst show_nat.simps) simp
  qed
qed

lemma show_nat_nonempty: "show_nat n \<noteq> []"
  by (subst show_nat.simps) simp

lemma show_nat_inj: "show_nat n = show_nat m \<Longrightarrow> n = m"
proof (induction n arbitrary: m rule: show_nat.induct)
  case (1 n)
  show ?case
  proof (cases "n < 10")
    case True
    then have n: "show_nat n = [digit_char n]" by (subst show_nat.simps) simp
    show ?thesis
    proof (cases "m < 10")
      case m: True
      then have "show_nat m = [digit_char m]" by (subst show_nat.simps) simp
      with n "1.prems" True m show ?thesis by (auto dest: digit_char_inj)
    next
      case False
      then have "show_nat m = show_nat (m div 10) @ [digit_char (m mod 10)]"
        by (subst show_nat.simps) simp
      with n "1.prems" show_nat_nonempty [of "m div 10"] show ?thesis by simp
    qed
  next
    case False
    then have n: "show_nat n = show_nat (n div 10) @ [digit_char (n mod 10)]"
      by (subst show_nat.simps) simp
    show ?thesis
    proof (cases "m < 10")
      case True
      then have "show_nat m = [digit_char m]" by (subst show_nat.simps) simp
      with n "1.prems" show_nat_nonempty [of "n div 10"] show ?thesis by simp
    next
      case m: False
      then have "show_nat m = show_nat (m div 10) @ [digit_char (m mod 10)]"
        by (subst show_nat.simps) simp
      with n "1.prems" have a: "show_nat (n div 10) = show_nat (m div 10)"
        and b: "digit_char (n mod 10) = digit_char (m mod 10)"
        by simp_all
      from "1.IH" [OF False a] have "n div 10 = m div 10" .
      moreover from b have "n mod 10 = m mod 10" by (intro digit_char_inj) simp_all
      ultimately show ?thesis by (metis div_mult_mod_eq)
    qed
  qed
qed

lemma dash_not_digit: "CHR ''-'' \<notin> set (show_nat n)"
  using show_nat_digits [of n] by auto

lemma split_at_dash:
  assumes "CHR ''-'' \<notin> set xs" and "CHR ''-'' \<notin> set ys"
    and "xs @ CHR ''-'' # r = ys @ CHR ''-'' # r'"
  shows "xs = ys \<and> r = r'"
  using assms
proof (induction xs arbitrary: ys)
  case Nil
  then show ?case by (cases ys) auto
next
  case (Cons x xs)
  then show ?case by (cases ys) auto
qed

lemma new_id_inj:
  assumes "new_id render clock random j = new_id render clock random j'"
  shows "j = j'"
proof -
  from assms have
    "show_nat (clock j) @ CHR ''-'' # (show_nat j @ CHR ''-'' # js_toString render (random j)) =
     show_nat (clock j') @ CHR ''-'' # (show_nat j' @ CHR ''-'' # js_toString render (random j'))"
    by (simp add: new_id_def)
  from split_at_dash [OF dash_not_digit dash_not_digit this]
  have "show_nat j @ CHR ''-'' # js_toString render (random j) =
        show_nat j' @ CHR ''-'' # js_toString render (random j')"
    by simp
  from split_at_dash [OF dash_not_digit dash_not_digit this]
  show ?thesis by (simp add: show_nat_inj)
qed

lemma new_id_prefix: "take 4 (new_id render clock random j) = ''new-''"
  by (simp add: new_id_def)

lemma parsed_id_prefix:
  assumes "e \<in> set (createEditorEvents render evs)"
  shows "take 4 (eid e) \<noteq> ''new-''"
proof -
  from assms obtain index where
    e: "eid e = show_nat index @ ''-'' @ js_toString render (time (evs ! index)) @ ''-''
          @ js_toString render (message (evs ! index)) @ ''-''
          @ js_toString render (paramL (evs ! index)) @ ''-''
          @ js_toString render (paramH (evs ! index))"
    by (auto simp: createEditorEvents_def in_set_zip)
  obtain c cs where c: "show_nat index = c # cs"
    using show_nat_nonempty [of index] by (cases "show_nat index") auto
  then have "c \<in> set ''0123456789''" using show_nat_digits [of index] by auto
  then have "c \<noteq> CHR ''n''" by auto
  with e c show ?thesis by simp
qed

subsection \<open>Merging\<close>

lemma mergeFile_events:
  assumes "parseRec bytes = Inr parsed"
  shows "events (mergeFile render clock random bytes s) =
     recomputeTimeline (events s @
       map (\<lambda>(e, i).
              \<lparr>message = message e, paramL = paramL e, paramH = paramH e, hwnd = hwnd e,
               delay = (if i = 0 then Fin 0 else delay e), time = Fin 0,
               eid = new_id render clock random i\<rparr>)
           (zip (createEditorEvents render (ParseResult.events parsed))
                [0..<length (ParseResult.events parsed)]))"
proof -
  have l: "length (createEditorEvents render (ParseResult.events parsed)) =
      length (ParseResult.events parsed)"
    by (simp add: createEditorEvents_def)
  have z: "zip (map as_template (createEditorEvents render (ParseResult.events parsed)))
        [0..<length (ParseResult.events parsed)] =
      map (\<lambda>(e, i). (as_template e, i))
        (zip (createEditorEvents render (ParseResult.events parsed))
           [0..<length (ParseResult.events parsed)])"
    by (simp add: zip_map1)
  show ?thesis
    using assms
    by (simp add: mergeFile_def insertEvents_def Let_def commit_events insertEvents_mutation_def
        l z as_template_def case_prod_unfold comp_def del: zip_map1 cong: if_cong)
qed

lemma createEditorEvents_nth:
  assumes "j < length evs"
  shows "message (createEditorEvents render evs ! j) = message (evs ! j)"
    and "paramL (createEditorEvents render evs ! j) = paramL (evs ! j)"
    and "paramH (createEditorEvents render evs ! j) = paramH (evs ! j)"
    and "hwnd (createEditorEvents render evs ! j) = hwnd (evs ! j)"
  using assms by (simp_all add: createEditorEvents_def)

lemma length_createEditorEvents [simp]: "length (createEditorEvents render evs) = length evs"
  by (simp add: createEditorEvents_def)

lemma merged_facts:
  assumes p: "parseRec bytes = Inr parsed" and n: "recomputeTimeline (events s) = events s"
  shows "length (merged render clock random bytes s) =
           length (events s) + length (ParseResult.events parsed)"
    and "take (length (events s)) (merged render clock random bytes s) = events s"
    and "j < length (ParseResult.events parsed) \<Longrightarrow>
           eid (merged render clock random bytes s ! (length (events s) + j)) = new_id render clock random j \<and>
           message (merged render clock random bytes s ! (length (events s) + j)) =
             message (ParseResult.events parsed ! j) \<and>
           paramL (merged render clock random bytes s ! (length (events s) + j)) =
             paramL (ParseResult.events parsed ! j) \<and>
           paramH (merged render clock random bytes s ! (length (events s) + j)) =
             paramH (ParseResult.events parsed ! j) \<and>
           hwnd (merged render clock random bytes s ! (length (events s) + j)) =
             hwnd (ParseResult.events parsed ! j)"
    and "ParseResult.events parsed \<noteq> [] \<Longrightarrow>
           delay (merged render clock random bytes s ! length (events s)) = Fin 0"
proof -
  let ?P = "ParseResult.events parsed"
  let ?C = "createEditorEvents render ?P"
  let ?g = "\<lambda>(e, i). \<lparr>message = message e, paramL = paramL e, paramH = paramH e, hwnd = hwnd e,
               delay = (if i = 0 then Fin 0 else delay e), time = Fin 0,
               eid = new_id render clock random i\<rparr>"
  let ?A = "map ?g (zip ?C [0..<length ?P])"
  have m: "merged render clock random bytes s = recomputeTimeline (events s @ ?A)"
    unfolding merged_def by (rule mergeFile_events [OF p])
  have la: "length ?A = length ?P" by simp
  show "length (merged render clock random bytes s) = length (events s) + length ?P"
    unfolding m by simp
  show "take (length (events s)) (merged render clock random bytes s) = events s"
    unfolding m by (rule take_recomputeTimeline_append [OF n])
  have a: "\<And>j. j < length ?P \<Longrightarrow> ?A ! j = ?g (?C ! j, j)"
    by simp
  show "eid (merged render clock random bytes s ! (length (events s) + j)) = new_id render clock random j \<and>
        message (merged render clock random bytes s ! (length (events s) + j)) = message (?P ! j) \<and>
        paramL (merged render clock random bytes s ! (length (events s) + j)) = paramL (?P ! j) \<and>
        paramH (merged render clock random bytes s ! (length (events s) + j)) = paramH (?P ! j) \<and>
        hwnd (merged render clock random bytes s ! (length (events s) + j)) = hwnd (?P ! j)"
    if j: "j < length ?P"
  proof -
    have k: "length (events s) + j < length (events s @ ?A)" using j by simp
    have e: "(events s @ ?A) ! (length (events s) + j) = ?g (?C ! j, j)"
      using a [OF j] by (simp add: nth_append)
    show ?thesis
      unfolding m nth_recomputeTimeline [OF k] e
      using createEditorEvents_nth [OF j, of render] by simp
  qed
  show "delay (merged render clock random bytes s ! length (events s)) = Fin 0" if ne: "?P \<noteq> []"
  proof (cases "events s = []")
    case True
    have "length ?A \<noteq> 0" using ne by simp
    then have "?A \<noteq> []" by (simp only: length_0_conv) simp
    from delay_recomputeTimeline_first [OF this] True show ?thesis
      unfolding m by simp
  next
    case False
    have k: "length (events s) < length (events s @ ?A)" using ne by simp
    have pos: "0 < length (events s)" using False by simp
    have "0 < length ?P" using ne by simp
    from a [OF this] have e: "(events s @ ?A) ! length (events s) = ?g (?C ! 0, 0)"
      by (simp add: nth_append)
    have "sanitizeDelay (Fin 0) = Fin 0" by (simp add: sanitizeDelay_cases)
    then show ?thesis
      unfolding m delay_recomputeTimeline [OF k pos] e by simp
  qed
qed

subsection \<open>Selection\<close>

lemma select_range_subset: "select_range evs cursor stop acc \<subseteq> acc \<union> set (map eid evs)"
proof (induction evs cursor stop acc rule: select_range.induct)
  case (1 evs cursor stop acc)
  show ?case
  proof (cases "cursor \<le> stop")
    case False
    then show ?thesis by (subst select_range.simps) simp
  next
    case True
    show ?thesis
    proof (cases "0 \<le> cursor \<and> cursor < int (length evs)")
      case in_range: True
      then have "nat cursor < length evs" by linarith
      then have "eid (evs ! nat cursor) \<in> set (map eid evs)" by simp
      with 1 [OF True] True in_range show ?thesis
        by (subst select_range.simps) auto
    next
      case False
      with 1 [OF True] True show ?thesis
        by (subst select_range.simps) auto
    qed
  qed
qed

lemma selection_ok_commit:
  assumes "selection_ok s"
  shows "selection_ok (commitEvents m opts s)"
proof (cases "m (events s)")
  case None
  with assms show ?thesis
    by (simp add: selection_ok_def commit_events commit_selectedIds)
next
  case (Some r)
  then show ?thesis
    by (auto simp: selection_ok_def commit_events commit_selectedIds)
qed

lemma selection_ok_updates [simp]:
  "selection_ok (s\<lparr>error := e\<rparr>) = selection_ok s"
  "selection_ok (s\<lparr>loading := l\<rparr>) = selection_ok s"
  "selection_ok (s\<lparr>selectionAnchor := an\<rparr>) = selection_ok s"
  by (simp_all add: selection_ok_def)

lemma selection_ok_toggle:
  assumes "selection_ok s" and "i \<in> set (map eid (events s))"
  shows "selection_ok (toggleSelection i index shift meta s)"
proof -
  have "select_range (events s) a b (selectedIds s) \<subseteq> set (map eid (events s))"
       "select_range (events s) a b {} \<subseteq> set (map eid (events s))" for a b
    using select_range_subset [of "events s" a b "selectedIds s"]
      select_range_subset [of "events s" a b "{}"] assms(1)
    by (auto simp: selection_ok_def)
  with assms show ?thesis
    by (auto simp: toggleSelection_def selection_ok_def Let_def)
qed

lemma selection_ok_perform:
  assumes "selection_ok s" and "toggle_present a s"
  shows "selection_ok (perform render a s)"
proof (cases a)
  case (LoadFile name bytes)
  with assms show ?thesis
    by (auto simp: loadFile_def Let_def selection_ok_def split: sum.splits)
next
  case (MergeFile clock random bytes)
  have "selection_ok (s\<lparr>error := None, loading := True\<rparr>)" using assms(1) by simp
  from selection_ok_commit [OF this] MergeFile assms(1) show ?thesis
    by (auto simp: mergeFile_def insertEvents_def Let_def split: sum.splits)
next
  case ResetChanges
  with assms show ?thesis by (auto simp: resetChanges_def Let_def selection_ok_def)
next
  case (ToggleSelection i index shift meta)
  with assms show ?thesis by (simp add: selection_ok_toggle)
next
  case SelectAll
  then show ?thesis by (simp add: selectAll_def selection_ok_def)
next
  case ClearSelection
  then show ?thesis by (simp add: clearSelection_def selection_ok_def)
next
  case Undo
  with assms show ?thesis by (simp add: undo_def Let_def selection_ok_def)
next
  case Redo
  with assms show ?thesis by (simp add: redo_def Let_def selection_ok_def)
qed (use assms in \<open>simp_all add: updateDelay_def removeEvent_def insertEvents_def
      applyDelayToSelection_def addDelayToSelection_def clampSmallDelays_def applyToSelection_def
      deleteSelected_def selection_ok_commit Let_def\<close>)

lemma removeEvent_prunes:
  assumes "selection_ok s" and "selectedIds s = {a, b, c}" and "a \<noteq> b" and "c \<noteq> b"
  shows "selectedIds (removeEvent b s) = {a, c}"
proof -
  from assms(1,2) have in_ids: "a \<in> eid ` set (events s)" "b \<in> eid ` set (events s)"
    "c \<in> eid ` set (events s)"
    by (auto simp: selection_ok_def)
  then have ex: "list_ex (\<lambda>event. eid event = b) (events s)"
    by (auto simp: list_ex_iff)
  have ids: "eid ` set (filter (\<lambda>event. eid event \<noteq> b) (events s)) = eid ` set (events s) - {b}"
    by auto
  show ?thesis
    using ex in_ids assms(2,3,4)
    by (auto simp: removeEvent_def removeEvent_mutation_def commit_selectedIds ids)
qed


section \<open>The claims about the store\<close>

subsection \<open>Evaluating the sample\<close>

lemmas js_defs = isFinite_def js_sub_def js_ge_def js_strict_eq_def Math_min_def Math_max_def
  trunc_num_def UINT32_MAX_def js_toString_def show_int_def show_nat.simps digit_char_def

lemmas codec_defs = parseRec_def parse_loop.simps parse_body_def getUint32_def diffUint32_def
  RECORD_BYTE_LENGTH_def UINT32_SIZE_def set_add_def Let_def

lemmas store_defs = loadFile_def createEditorEvents_def recomputeTimeline_def sanitizeDelay_def
  initial_state_def commitEvents_def no_options_def push_capped_def HISTORY_LIMIT_def
  updateDelay_def updateDelay_mutation_def removeEvent_def removeEvent_mutation_def
  mergeFile_def insertEvents_def insertEvents_mutation_def as_template_def new_id_def
  toggleSelection_def selectAll_def undo_def redo_def Let_def

lemma parse_sample:
  "parseRec sample_file =
     Inr \<lparr>ParseResult.events =
            [\<lparr>message = Fin 512, paramL = Fin 7, paramH = Fin 9, hwnd = Fin 1,
               delay = Fin 0, time = Fin 0\<rparr>,
             \<lparr>message = Fin 513, paramL = Fin 0, paramH = Fin 0, hwnd = Fin 1,
               delay = Fin 32, time = Fin 32\<rparr>,
             \<lparr>message = Fin 514, paramL = Fin 0, paramH = Fin 0, hwnd = Fin 1,
               delay = Fin 8, time = Fin 40\<rparr>],
          ParseResult.baseTime = Fin 100, hwnds = [Fin 1], duration = Fin 40\<rparr>"
  by (simp add: sample_file_def codec_defs js_defs)

lemma loaded_state:
  "loaded =
     \<lparr>events =
        [\<lparr>message = Fin 512, paramL = Fin 7, paramH = Fin 9, hwnd = Fin 1,
           delay = Fin 0, time = Fin 0, eid = ''0-0-512-7-9''\<rparr>,
         \<lparr>message = Fin 513, paramL = Fin 0, paramH = Fin 0, hwnd = Fin 1,
           delay = Fin 32, time = Fin 32, eid = ''1-32-513-0-0''\<rparr>,
         \<lparr>message = Fin 514, paramL = Fin 0, paramH = Fin 0, hwnd = Fin 1,
           delay = Fin 8, time = Fin 40, eid = ''2-40-514-0-0''\<rparr>],
      initialEvents =
        [\<lparr>message = Fin 512, paramL = Fin 7, paramH = Fin 9, hwnd = Fin 1,
           delay = Fin 0, time = Fin 0, eid = ''0-0-512-7-9''\<rparr>,
         \<lparr>message = Fin 513, paramL = Fin 0, paramH = Fin 0, hwnd = Fin 1,
           delay = Fin 32, time = Fin 32, eid = ''1-32-513-0-0''\<rparr>,
         \<lparr>message = Fin 514, paramL = Fin 0, paramH = Fin 0, hwnd = Fin 1,
           delay = Fin 8, time = Fin 40, eid = ''2-40-514-0-0''\<rparr>],
      baseTime = Fin 100, fileName = Some ''a.rec'', loading = False, error = None,
      isDirty = False, selectedIds = {}, selectionAnchor = None, history = [], future = []\<rparr>"
  by (simp add: loaded_def parse_sample store_defs js_defs)

lemma reachable_loaded: "reachable sample_render loaded"
  unfolding loaded_def by (intro reachable.step reachable.start)

lemma merged_once_ids:
  "map eid (events merged_once) =
     [''0-0-512-7-9'', ''1-32-513-0-0'', ''2-40-514-0-0'',
      ''new-1762087654321-0-0.5'', ''new-1762087654321-1-0.5'', ''new-1762087654321-2-0.5'']"
  by (simp add: merged_once_def parse_sample loaded_state store_defs js_defs sample_render_def
      sample_clock_def sample_random_def)

subsection \<open>The timeline invariant\<close>

text \<open>
  Claim C3.  In every state the store can reach, whichever operation comes next (load, merge,
  delay edit, remove, insert, the batch edits, reset, undo, redo or a selection change),
  the working sequence afterwards starts with time 0 and delay 0, and every later time is
  the time before it plus the event's delay and is not smaller; and the sequence is either
  the one before the operation or a result of the normaliser.
\<close>

theorem timeline_invariant:
  assumes "reachable render s"
  shows "timeline_ok (events (perform render a s)) \<and>
         (events (perform render a s) = events s \<or>
          (\<exists>xs. events (perform render a s) = recomputeTimeline xs))"
proof -
  have "reachable render (perform render a s)"
    using assms by (rule reachable.step)
  then have "recomputeTimeline (events (perform render a s)) = events (perform render a s)"
    using reachable_invariant by (auto simp: store_invariant_def)
  then have "timeline_ok (events (perform render a s))"
    using timeline_ok_recomputeTimeline [of "events (perform render a s)"] by simp
  then show ?thesis using perform_routes by blast
qed

theorem timeline_invariant_witness:
  "reachable sample_render loaded \<and>
   timeline_ok (events (perform sample_render (UpdateDelay ''1-32-513-0-0'' (Fin 7)) loaded)) \<and>
   (events (perform sample_render (UpdateDelay ''1-32-513-0-0'' (Fin 7)) loaded) = events loaded \<or>
    (\<exists>xs. events (perform sample_render (UpdateDelay ''1-32-513-0-0'' (Fin 7)) loaded) =
       recomputeTimeline xs))"
  using reachable_loaded timeline_invariant [OF reachable_loaded] by (rule conjI)

subsection \<open>Undo and redo\<close>

text \<open>
  Claim C4.  From a reachable state, after \<open>n \<le> 50\<close> mutations (edits that commit a new
  working sequence), \<open>n\<close> undos bring back the working sequence from before the mutations,
  and \<open>n\<close> redos after them bring back the one from after the mutations; an undo with an
  empty history changes nothing.
\<close>

theorem undo_redo_inverse:
  "(reachable render s \<and> all_mutate render acts s \<and> length acts \<le> HISTORY_LIMIT \<longrightarrow>
      events ((undo ^^ length acts) (run render acts s)) = events s \<and>
      events ((redo ^^ length acts) ((undo ^^ length acts) (run render acts s))) =
        events (run render acts s)) \<and>
   (history t = [] \<longrightarrow> undo t = t)"
  using undo_redo_run [of render s acts] undo_empty [of t] by blast

theorem undo_redo_inverse_witness:
  "reachable sample_render loaded \<and>
   all_mutate sample_render [UpdateDelay ''1-32-513-0-0'' (Fin 7), RemoveEvent ''0-0-512-7-9''] loaded \<and>
   length [UpdateDelay ''1-32-513-0-0'' (Fin 7), RemoveEvent ''0-0-512-7-9''] \<le> HISTORY_LIMIT \<and>
   events ((undo ^^ length [UpdateDelay ''1-32-513-0-0'' (Fin 7), RemoveEvent ''0-0-512-7-9''])
     (run sample_render [UpdateDelay ''1-32-513-0-0'' (Fin 7), RemoveEvent ''0-0-512-7-9''] loaded))
     = events loaded \<and>
   events ((redo ^^ length [UpdateDelay ''1-32-513-0-0'' (Fin 7), RemoveEvent ''0-0-512-7-9''])
     ((undo ^^ length [UpdateDelay ''1-32-513-0-0'' (Fin 7), RemoveEvent ''0-0-512-7-9''])
       (run sample_render [UpdateDelay ''1-32-513-0-0'' (Fin 7), RemoveEvent ''0-0-512-7-9''] loaded)))
     = events (run sample_render [UpdateDelay ''1-32-513-0-0'' (Fin 7), RemoveEvent ''0-0-512-7-9''] loaded) \<and>
   history initial_state = [] \<and> undo initial_state = initial_state"
proof -
  let ?acts = "[UpdateDelay ''1-32-513-0-0'' (Fin 7), RemoveEvent ''0-0-512-7-9'']"
  have m: "all_mutate sample_render ?acts loaded"
    by (simp add: loaded_state store_defs js_defs)
  have l: "length ?acts \<le> HISTORY_LIMIT" by (simp add: HISTORY_LIMIT_def)
  have h: "history initial_state = []" by (simp add: initial_state_def)
  from undo_redo_inverse [of sample_render loaded ?acts initial_state] reachable_loaded m l h
  show ?thesis by blast
qed

subsection \<open>Failing loads and merges\<close>

text \<open>
  Claim C5.  Given a buffer whose length is not a multiple of the record size, \<open>loadFile\<close>
  returns nothing and \<open>mergeFile\<close> inserts nothing: both leave the store as it was, the
  baseline, the working sequence, the two stacks and the selection included, but for the
  error message they record (and the loading flag, which is off).  The delay edit, the
  removals and the selection operations never record an error.
\<close>

theorem load_merge_failure:
  assumes "length bytes mod RECORD_BYTE_LENGTH \<noteq> 0"
  shows "loadFile render name bytes s =
           (None, s\<lparr>error := Some (size_message (length bytes)), loading := False\<rparr>) \<and>
         mergeFile render clock random bytes s =
           s\<lparr>error := Some (size_message (length bytes)), loading := False\<rparr> \<and>
         error (updateDelay i v s) = error s \<and>
         error (removeEvent i s) = error s \<and>
         error (deleteSelected s) = error s \<and>
         error (toggleSelection i index shift meta s) = error s \<and>
         error (selectAll s) = error s \<and>
         error (clearSelection s) = error s"
proof -
  have p: "parseRec bytes = Inl (Error (size_message (length bytes)))"
    using assms by (auto simp: parseRec_def)
  have "loadFile render name bytes s =
      (None, s\<lparr>error := Some (size_message (length bytes)), loading := False\<rparr>)"
    by (simp add: loadFile_def p error_message_def)
  moreover have "mergeFile render clock random bytes s =
      s\<lparr>error := Some (size_message (length bytes)), loading := False\<rparr>"
    by (simp add: mergeFile_def p error_message_def)
  moreover have "error (toggleSelection i index shift meta s) = error s"
    by (simp add: toggleSelection_def Let_def)
  ultimately show ?thesis
    by (simp add: updateDelay_def removeEvent_def deleteSelected_def commit_other
        selectAll_def clearSelection_def Let_def)
qed

theorem load_merge_failure_witness:
  "length ([1, 2, 3] :: u8 list) mod RECORD_BYTE_LENGTH \<noteq> 0 \<and>
   loadFile sample_render ''b.rec'' [1, 2, 3] loaded =
     (None, loaded\<lparr>error := Some ''Unexpected .rec size: 3 bytes is not a multiple of 20.'',
                   loading := False\<rparr>) \<and>
   mergeFile sample_render sample_clock sample_random [1, 2, 3] loaded =
     loaded\<lparr>error := Some ''Unexpected .rec size: 3 bytes is not a multiple of 20.'',
             loading := False\<rparr>"
proof -
  have h: "length ([1, 2, 3] :: u8 list) mod RECORD_BYTE_LENGTH \<noteq> 0"
    by (simp add: RECORD_BYTE_LENGTH_def)
  have m: "size_message (length ([1, 2, 3] :: u8 list)) =
      ''Unexpected .rec size: 3 bytes is not a multiple of 20.''"
    by (simp add: size_message_def RECORD_BYTE_LENGTH_def show_nat.simps digit_char_def)
  from load_merge_failure [OF h, of sample_render "''b.rec''" loaded sample_clock sample_random]
  show ?thesis unfolding m using h by blast
qed

subsection \<open>Setting a delay\<close>

text \<open>
  Claim C6, as stated, fails for the first event of the sequence: the normaliser pins its
  delay to 0, so setting it to \<open>1e20\<close> leaves 0 there (and yet pushes a history entry and
  marks the store dirty).
\<close>

theorem updateDelay_first_event_counterexample:
  "eid (events loaded ! 0) = ''0-0-512-7-9'' \<and>
   delay (events (updateDelay ''0-0-512-7-9'' (Fin (10 ^ 20)) loaded) ! 0) \<noteq> Fin (2 ^ 32 - 1) \<and>
   history (updateDelay ''0-0-512-7-9'' (Fin (10 ^ 20)) loaded) \<noteq> history loaded \<and>
   isDirty (updateDelay ''0-0-512-7-9'' (Fin (10 ^ 20)) loaded) \<noteq> isDirty loaded"
  by (simp add: loaded_state store_defs js_defs)

text \<open>
  Claim C6, amended.  For an event that is not the first of the sequence, \<open>updateDelay\<close>
  leaves the sanitised value as its delay, and no event changes its place; a negative or
  non-finite value sanitises to 0, \<open>-5\<close> to 0 and \<open>1e20\<close> to \<open>2^32 - 1\<close>; and when no event
  has the given id, or all that have it already have the sanitised delay, the store is
  unchanged as a whole (no history entry, same dirty flag).
\<close>

theorem updateDelay_sets_delay:
  "(0 < k \<and> k < length (events s) \<and> eid (events s ! k) = i \<longrightarrow>
      delay (events (updateDelay i v s) ! k) = sanitizeDelay v) \<and>
   map eid (events (updateDelay i v s)) = map eid (events s) \<and>
   (\<not> isFinite v \<or> js_lt v (Fin 0) \<longrightarrow> sanitizeDelay v = Fin 0) \<and>
   sanitizeDelay (Fin (- 5)) = Fin 0 \<and>
   sanitizeDelay (Fin (10 ^ 20)) = Fin (2 ^ 32 - 1) \<and>
   ((\<forall>e \<in> set (events s). eid e = i \<longrightarrow> delay e = sanitizeDelay v) \<longrightarrow> updateDelay i v s = s)"
  using updateDelay_delay [of k s i v] updateDelay_ids [of i v s] sanitizeDelay_bad [of v]
    sanitizeDelay_examples updateDelay_noop [of s i v]
  by blast

theorem updateDelay_sets_delay_witness:
  "0 < (1 :: nat) \<and> 1 < length (events loaded) \<and> eid (events loaded ! 1) = ''1-32-513-0-0'' \<and>
   delay (events (updateDelay ''1-32-513-0-0'' (Fin (10 ^ 20)) loaded) ! 1) = Fin (2 ^ 32 - 1) \<and>
   js_lt (Fin (- 5)) (Fin 0) \<and>
   delay (events (updateDelay ''1-32-513-0-0'' (Fin (- 5)) loaded) ! 1) = Fin 0 \<and>
   updateDelay ''1-32-513-0-0'' (Fin 32) loaded = loaded \<and>
   updateDelay ''no such id'' (Fin 5) loaded = loaded"
proof -
  have k: "0 < (1 :: nat)" "1 < length (events loaded)" "eid (events loaded ! 1) = ''1-32-513-0-0''"
    by (simp_all add: loaded_state)
  have neg: "js_lt (Fin (- 5)) (Fin 0)" by simp
  have same: "\<forall>e \<in> set (events loaded). eid e = ''1-32-513-0-0'' \<longrightarrow> delay e = sanitizeDelay (Fin 32)"
    by (simp add: loaded_state sanitizeDelay_cases)
  have absent: "\<forall>e \<in> set (events loaded). eid e = ''no such id'' \<longrightarrow> delay e = sanitizeDelay (Fin 5)"
    by (simp add: loaded_state)
  from updateDelay_sets_delay [of 1 loaded "''1-32-513-0-0''" "Fin (10 ^ 20)"] k
  have a: "delay (events (updateDelay ''1-32-513-0-0'' (Fin (10 ^ 20)) loaded) ! 1) = Fin (2 ^ 32 - 1)"
    by simp
  from updateDelay_sets_delay [of 1 loaded "''1-32-513-0-0''" "Fin (- 5)"] k
  have b: "delay (events (updateDelay ''1-32-513-0-0'' (Fin (- 5)) loaded) ! 1) = Fin 0"
    by simp
  from updateDelay_sets_delay [of 1 loaded "''1-32-513-0-0''" "Fin 32"] same
  have c: "updateDelay ''1-32-513-0-0'' (Fin 32) loaded = loaded"
    by blast
  from updateDelay_sets_delay [of 1 loaded "''no such id''" "Fin 5"] absent
  have d: "updateDelay ''no such id'' (Fin 5) loaded = loaded"
    by blast
  from k neg a b c d show ?thesis by blast
qed

subsection \<open>Merging\<close>

text \<open>
  Claim C7, as stated, fails when an earlier insertion drew the same clock value and the
  same random number: merging the sample file twice under such a clock and generator gives
  the first event of the second merge (position 6) an id the working sequence already has.
\<close>

theorem merge_id_collision_counterexample:
  "length (events merged_once) = 6 \<and>
   eid (merged sample_render sample_clock sample_random sample_file merged_once ! 6)
     \<in> set (map eid (events merged_once))"
proof -
  have "map eid (merged sample_render sample_clock sample_random sample_file merged_once) =
     [''0-0-512-7-9'', ''1-32-513-0-0'', ''2-40-514-0-0'',
      ''new-1762087654321-0-0.5'', ''new-1762087654321-1-0.5'', ''new-1762087654321-2-0.5'',
      ''new-1762087654321-0-0.5'', ''new-1762087654321-1-0.5'', ''new-1762087654321-2-0.5'']"
    by (simp add: merged_def merged_once_def parse_sample loaded_state store_defs js_defs
        sample_render_def sample_clock_def sample_random_def)
  note ids = this
  have six: "map eid (merged sample_render sample_clock sample_random sample_file merged_once) ! 6 =
      ''new-1762087654321-0-0.5''"
    unfolding ids by simp
  have "length (merged sample_render sample_clock sample_random sample_file merged_once) = 9"
    using arg_cong [OF ids, of length] by simp
  then have "eid (merged sample_render sample_clock sample_random sample_file merged_once ! 6) =
      ''new-1762087654321-0-0.5''"
    using six by simp
  moreover have "length (events merged_once) = 6"
    using arg_cong [OF merged_once_ids, of length] by simp
  ultimately show ?thesis
    unfolding merged_once_ids by simp
qed

text \<open>
  Claim C7, amended.  Merging a decodable file into a reachable store keeps the current
  sequence and appends one event per decoded record, with the record's message,
  parameters and window handle; the first appended event has delay 0; the appended events
  get the ids \<open>new-<clock>-<position>-<random>\<close>, which differ from one another and from
  every id of the current sequence that does not begin with \<open>new-\<close>; and no id made by
  parsing a file begins with \<open>new-\<close>.  So loading one file and merging another never
  collides, whatever the two files are; against the ids of an earlier insertion the new
  ids are only as distinct as the clock and the random numbers drawn.
\<close>

theorem merge_appends_fresh_ids:
  assumes "parseRec bytes = Inr parsed" and "reachable render s"
  shows "length (merged render clock random bytes s) =
           length (events s) + length (ParseResult.events parsed) \<and>
         take (length (events s)) (merged render clock random bytes s) = events s \<and>
         (ParseResult.events parsed \<noteq> [] \<longrightarrow>
            delay (merged render clock random bytes s ! length (events s)) = Fin 0) \<and>
         (\<forall>j < length (ParseResult.events parsed).
            eid (merged render clock random bytes s ! (length (events s) + j)) =
              new_id render clock random j \<and>
            message (merged render clock random bytes s ! (length (events s) + j)) =
              message (ParseResult.events parsed ! j) \<and>
            paramL (merged render clock random bytes s ! (length (events s) + j)) =
              paramL (ParseResult.events parsed ! j) \<and>
            paramH (merged render clock random bytes s ! (length (events s) + j)) =
              paramH (ParseResult.events parsed ! j) \<and>
            hwnd (merged render clock random bytes s ! (length (events s) + j)) =
              hwnd (ParseResult.events parsed ! j) \<and>
            (\<forall>e \<in> set (events s). take 4 (eid e) \<noteq> ''new-'' \<longrightarrow>
               eid (merged render clock random bytes s ! (length (events s) + j)) \<noteq> eid e) \<and>
            (\<forall>j' < length (ParseResult.events parsed). j' \<noteq> j \<longrightarrow>
               eid (merged render clock random bytes s ! (length (events s) + j')) \<noteq>
               eid (merged render clock random bytes s ! (length (events s) + j)))) \<and>
         (\<forall>e \<in> set (createEditorEvents render evs). take 4 (eid e) \<noteq> ''new-'')"
proof -
  have n: "recomputeTimeline (events s) = events s"
    using reachable_invariant [OF assms(2)] by (simp add: store_invariant_def)
  note f = merged_facts [OF assms(1) n]
  have fresh: "eid (merged render clock random bytes s ! (length (events s) + j)) \<noteq> eid e"
    if "j < length (ParseResult.events parsed)" and "take 4 (eid e) \<noteq> ''new-''" for j e
    using f(3) [OF that(1)] that(2) new_id_prefix [of render clock random j] by auto
  have apart: "eid (merged render clock random bytes s ! (length (events s) + j')) \<noteq>
        eid (merged render clock random bytes s ! (length (events s) + j))"
    if "j < length (ParseResult.events parsed)" and "j' < length (ParseResult.events parsed)"
      and "j' \<noteq> j" for j j'
    using f(3) [OF that(1)] f(3) [OF that(2)] that(3) new_id_inj [of render clock random j' j]
    by auto
  show ?thesis
    using f(1) f(2) f(3) f(4) fresh apart parsed_id_prefix [of _ render evs] by blast
qed

theorem merge_appends_fresh_ids_witness:
  "parseRec sample_file =
     Inr \<lparr>ParseResult.events =
            [\<lparr>message = Fin 512, paramL = Fin 7, paramH = Fin 9, hwnd = Fin 1,
               delay = Fin 0, time = Fin 0\<rparr>,
             \<lparr>message = Fin 513, paramL = Fin 0, paramH = Fin 0, hwnd = Fin 1,
               delay = Fin 32, time = Fin 32\<rparr>,
             \<lparr>message = Fin 514, paramL = Fin 0, paramH = Fin 0, hwnd = Fin 1,
               delay = Fin 8, time = Fin 40\<rparr>],
          ParseResult.baseTime = Fin 100, hwnds = [Fin 1], duration = Fin 40\<rparr> \<and>
   reachable sample_render loaded \<and>
   length (merged sample_render sample_clock sample_random sample_file loaded) = 6 \<and>
   take 3 (merged sample_render sample_clock sample_random sample_file loaded) = events loaded \<and>
   delay (merged sample_render sample_clock sample_random sample_file loaded ! 3) = Fin 0 \<and>
   eid (merged sample_render sample_clock sample_random sample_file loaded ! 3) = ''new-1762087654321-0-0.5'' \<and>
   eid (merged sample_render sample_clock sample_random sample_file loaded ! 3) \<noteq> ''0-0-512-7-9'' \<and>
   eid (merged sample_render sample_clock sample_random sample_file loaded ! 4) \<noteq>
     eid (merged sample_render sample_clock sample_random sample_file loaded ! 3)"
proof -
  let ?P = "\<lparr>ParseResult.events =
            [\<lparr>message = Fin 512, paramL = Fin 7, paramH = Fin 9, hwnd = Fin 1,
               delay = Fin 0, time = Fin 0\<rparr>,
             \<lparr>message = Fin 513, paramL = Fin 0, paramH = Fin 0, hwnd = Fin 1,
               delay = Fin 32, time = Fin 32\<rparr>,
             \<lparr>message = Fin 514, paramL = Fin 0, paramH = Fin 0, hwnd = Fin 1,
               delay = Fin 8, time = Fin 40\<rparr>],
          ParseResult.baseTime = Fin 100, hwnds = [Fin 1], duration = Fin 40\<rparr>"
  let ?M = "merged sample_render sample_clock sample_random sample_file loaded"
  note t = merge_appends_fresh_ids [OF parse_sample reachable_loaded, of sample_clock sample_random "[]"]
  have l: "length (events loaded) = 3" "length (ParseResult.events ?P) = 3"
    "ParseResult.events ?P \<noteq> []"
    by (simp_all add: loaded_state)
  from t have len: "length ?M = length (events loaded) + length (ParseResult.events ?P)"
    and tk: "take (length (events loaded)) ?M = events loaded"
    and dl: "ParseResult.events ?P \<noteq> [] \<longrightarrow> delay (?M ! length (events loaded)) = Fin 0"
    and each: "\<forall>j < length (ParseResult.events ?P).
            eid (?M ! (length (events loaded) + j)) = new_id sample_render sample_clock sample_random j \<and>
            message (?M ! (length (events loaded) + j)) = message (ParseResult.events ?P ! j) \<and>
            paramL (?M ! (length (events loaded) + j)) = paramL (ParseResult.events ?P ! j) \<and>
            paramH (?M ! (length (events loaded) + j)) = paramH (ParseResult.events ?P ! j) \<and>
            hwnd (?M ! (length (events loaded) + j)) = hwnd (ParseResult.events ?P ! j) \<and>
            (\<forall>e \<in> set (events loaded). take 4 (eid e) \<noteq> ''new-'' \<longrightarrow>
               eid (?M ! (length (events loaded) + j)) \<noteq> eid e) \<and>
            (\<forall>j' < length (ParseResult.events ?P). j' \<noteq> j \<longrightarrow>
               eid (?M ! (length (events loaded) + j')) \<noteq> eid (?M ! (length (events loaded) + j)))"
    by blast+
  have z: "0 < length (ParseResult.events ?P)" "1 < length (ParseResult.events ?P)" "(1 :: nat) \<noteq> 0"
    by simp_all
  from each z(1)
  have id0: "eid (?M ! (length (events loaded) + 0)) = new_id sample_render sample_clock sample_random 0"
    by blast
  from each z(1)
  have others: "\<forall>e \<in> set (events loaded). take 4 (eid e) \<noteq> ''new-'' \<longrightarrow>
      eid (?M ! (length (events loaded) + 0)) \<noteq> eid e"
    by blast
  from each z
  have apart: "eid (?M ! (length (events loaded) + 1)) \<noteq> eid (?M ! (length (events loaded) + 0))"
    by blast
  have a: "eid (?M ! 3) = ''new-1762087654321-0-0.5''"
    using id0 unfolding l
    by (simp add: new_id_def sample_render_def sample_clock_def sample_random_def js_defs)
  have "\<lparr>message = Fin 512, paramL = Fin 7, paramH = Fin 9, hwnd = Fin 1,
           delay = Fin 0, time = Fin 0, eid = ''0-0-512-7-9''\<rparr> \<in> set (events loaded)"
    by (simp add: loaded_state)
  with others have "eid (?M ! (length (events loaded) + 0)) \<noteq> ''0-0-512-7-9''"
    by fastforce
  then have b: "eid (?M ! 3) \<noteq> ''0-0-512-7-9''"
    unfolding l by simp
  have c: "eid (?M ! 4) \<noteq> eid (?M ! 3)"
    using apart unfolding l by simp
  have d: "delay (?M ! 3) = Fin 0"
    using dl l by simp
  have len': "length ?M = 6" using len unfolding l by simp
  have tk': "take 3 ?M = events loaded" using tk unfolding l by simp
  from parse_sample reachable_loaded len' tk' d a b c show ?thesis
    by blast
qed

subsection \<open>Selection\<close>

text \<open>
  Claim C8, as stated, fails for a toggle that names an id no event has:
  \<open>toggleSelection\<close> adds the id it is given without looking it up.
\<close>

theorem toggle_unknown_id_counterexample:
  "selectedIds (toggleSelection ''zzz'' 0 None None loaded) = {''zzz''} \<and>
   ''zzz'' \<notin> set (map eid (events (toggleSelection ''zzz'' 0 None None loaded)))"
  by (simp add: loaded_state store_defs)

text \<open>
  Claim C8, amended.  The selection stays a subset of the ids of the working sequence
  under every operation, provided a toggle names the id of an event of the sequence; it is
  one in the initial state; every commit of a new sequence prunes the selection to the ids
  of that sequence; and when the selection is \<open>{x, y, z}\<close>, removing the event \<open>y\<close> leaves
  \<open>{x, z}\<close>.
\<close>

theorem selection_pruned:
  "(selection_ok s \<and> toggle_present a s \<longrightarrow> selection_ok (perform render a s)) \<and>
   selection_ok initial_state \<and>
   (m (events s) \<noteq> None \<longrightarrow>
      selectedIds (commitEvents m opts s) \<subseteq> set (map eid (events (commitEvents m opts s)))) \<and>
   (selection_ok s \<and> selectedIds s = {x, y, z} \<and> x \<noteq> y \<and> z \<noteq> y \<longrightarrow>
      selectedIds (removeEvent y s) = {x, z})"
proof -
  have "selection_ok initial_state"
    by (simp add: selection_ok_def initial_state_def)
  moreover have "selectedIds (commitEvents m opts s) \<subseteq> set (map eid (events (commitEvents m opts s)))"
    if "m (events s) \<noteq> None"
    using that by (auto simp: commit_events commit_selectedIds)
  ultimately show ?thesis
    using selection_ok_perform [of s a render] removeEvent_prunes [of s x y z] by blast
qed

theorem selection_pruned_witness:
  "selection_ok (selectAll loaded) \<and>
   selectedIds (selectAll loaded) = {''0-0-512-7-9'', ''1-32-513-0-0'', ''2-40-514-0-0''} \<and>
   ''0-0-512-7-9'' \<noteq> ''1-32-513-0-0'' \<and> ''2-40-514-0-0'' \<noteq> ''1-32-513-0-0'' \<and>
   selectedIds (removeEvent ''1-32-513-0-0'' (selectAll loaded)) = {''0-0-512-7-9'', ''2-40-514-0-0''} \<and>
   toggle_present (ToggleSelection ''0-0-512-7-9'' 0 None None) (selectAll loaded) \<and>
   selection_ok (perform sample_render (ToggleSelection ''0-0-512-7-9'' 0 None None) (selectAll loaded)) \<and>
   removeEvent_mutation ''1-32-513-0-0'' (events (selectAll loaded)) \<noteq> None \<and>
   selectedIds (commitEvents (removeEvent_mutation ''1-32-513-0-0'') no_options (selectAll loaded))
     \<subseteq> set (map eid (events (commitEvents (removeEvent_mutation ''1-32-513-0-0'') no_options
           (selectAll loaded))))"
proof -
  let ?s = "selectAll loaded"
  have ok: "selection_ok ?s" by (simp add: selection_ok_def selectAll_def)
  have sel: "selectedIds ?s = {''0-0-512-7-9'', ''1-32-513-0-0'', ''2-40-514-0-0''}"
    by (simp add: loaded_state selectAll_def)
  have ne: "''0-0-512-7-9'' \<noteq> ''1-32-513-0-0''" "''2-40-514-0-0'' \<noteq> ''1-32-513-0-0''"
    by simp_all
  have tp: "toggle_present (ToggleSelection ''0-0-512-7-9'' 0 None None) ?s"
    by (simp add: loaded_state selectAll_def)
  have mu: "removeEvent_mutation ''1-32-513-0-0'' (events ?s) \<noteq> None"
    by (simp add: loaded_state selectAll_def removeEvent_mutation_def)
  from selection_pruned [of ?s "ToggleSelection ''0-0-512-7-9'' 0 None None" sample_render
      "removeEvent_mutation ''1-32-513-0-0''" no_options "''0-0-512-7-9''" "''1-32-513-0-0''"
      "''2-40-514-0-0''"] ok sel ne tp mu
  show ?thesis by blast
qed

subsection \<open>The normaliser\<close>

text \<open>
  Claim C10.  Normalising a normalised list changes nothing, whatever the list; and in
  every reachable state each snapshot of the undo and redo stacks is such a fixed point,
  so the normalisation that undo and redo apply to a snapshot returns it as it is.
\<close>

theorem normalizer_idempotent:
  "recomputeTimeline (recomputeTimeline evs) = recomputeTimeline evs \<and>
   (reachable render s \<longrightarrow>
      (\<forall>snapshot \<in> set (history s) \<union> set (future s). recomputeTimeline snapshot = snapshot))"
  using reachable_invariant [of render s] by (auto simp: recomputeTimeline_idem store_invariant_def)

theorem normalizer_idempotent_witness:
  "reachable sample_render (removeEvent ''0-0-512-7-9'' loaded) \<and>
   recomputeTimeline (recomputeTimeline (events loaded)) = recomputeTimeline (events loaded) \<and>
   events loaded \<in> set (history (removeEvent ''0-0-512-7-9'' loaded)) \<and>
   recomputeTimeline (events loaded) = events loaded"
proof -
  let ?s = "removeEvent ''0-0-512-7-9'' loaded"
  have "reachable sample_render (perform sample_render (RemoveEvent ''0-0-512-7-9'') loaded)"
    by (intro reachable.step reachable_loaded)
  then have r: "reachable sample_render ?s" by simp
  have m: "events loaded \<in> set (history ?s)"
    by (simp add: loaded_state store_defs)
  from normalizer_idempotent [of "events loaded" sample_render ?s] r m
  show ?thesis by blast
qed

end
